theory Spec2Isabelle
  imports Main "HOL-Library.Word" "HOL-Library.Char_ord" "HOL-Library.List_Lexorder"
begin

section \<open>ExtractGQL: a shallow embedding of src/ExtractGQL.ts\<close>

text \<open>
  Strings are byte lists. The GraphQL library (\<open>parse\<close>, \<open>separateOperations\<close>), Node's
  \<open>crypto\<close> and the file system are outside the repository: their results enter the
  model as arguments. Functions of the repository that live in other modules
  (\<open>extractFromAST\<close>, \<open>common\<close>, \<open>extractFromJS\<close>) are either arguments or modelled from
  the specification, and say so.
\<close>

subsection \<open>File extensions (lines 97-105)\<close>

text \<open>
  \<open>String.prototype.split\<close> with a one-character separator: a string with \<open>n\<close>
  separators has \<open>n + 1\<close> pieces, and the empty string has the one piece \<open>""\<close>.
\<close>

fun split_on :: "char \<Rightarrow> string \<Rightarrow> string list" where
  "split_on c [] = [[]]"
| "split_on c (x # xs) =
     (if x = c then [] # split_on c xs
      else (case split_on c xs of
              [] \<Rightarrow> [[x]]
            | p # ps \<Rightarrow> (x # p) # ps))"

text \<open>
  Node's \<open>path.basename\<close> on POSIX: trailing slashes are ignored, and the result is what
  follows the last remaining slash (the empty string for \<open>""\<close> and for \<open>"/"\<close>).
\<close>

definition basename :: "string \<Rightarrow> string" where
  "basename p =
     (let trimmed = dropWhile (\<lambda>c. c = CHR ''/'') (rev p)
      in rev (takeWhile (\<lambda>c. c \<noteq> CHR ''/'') trimmed))"

definition getFileExtension :: "string \<Rightarrow> string" where
  "getFileExtension filePath =
     (let pieces = split_on CHR ''.'' (basename filePath)
      in if length pieces \<le> 1 then [] else last pieces)"

subsection \<open>Promises and the file system\<close>

datatype js_error = FsError string | GraphQLError string | TypeError string

text \<open>
  What a promise comes to: it is fulfilled with a value, rejected with an error, or it
  never settles because neither \<open>resolve\<close> nor \<open>reject\<close> is ever called.
\<close>

datatype 'a promise = Resolved 'a | Rejected js_error | Pending

text \<open>\<open>ExtractGQL.readFile\<close> (lines 108-118), given what \<open>fs.readFile\<close> calls back with.\<close>

definition readFile :: "js_error + string \<Rightarrow> string promise" where
  "readFile rd = (case rd of Inl err \<Rightarrow> Rejected err | Inr data \<Rightarrow> Resolved data)"

text \<open>
  The syntax tree of the GraphQL library, as far as the extraction looks at it: a
  selection is a field, a fragment spread or an inline fragment; a definition is an
  operation (with its name, if it has one), a fragment (with its name and type condition)
  or something else; a document is its definitions in order.
\<close>

datatype selection =
    Field string "selection list"
  | FragmentSpread string
  | InlineFragment "selection list"

datatype operation_type = Query | Mutation | Subscription

datatype definition_node =
    OperationDefinition operation_type "string option" "selection list"
  | FragmentDefinition string string "selection list"
  | OtherDefinition string

datatype document_node = Document (definitions: "definition_node list")

text \<open>
  The fields of the class \<open>ExtractGQL\<close> (lines 65-95) that the extraction reads or writes.
  \<open>queryId\<close> is a JavaScript number, a double. It starts at 0 and only \<open>getQueryId\<close>
  writes it, by adding one, so it is a whole number from 0 to \<open>2 ^ 53\<close>: the model holds
  it as an \<open>int\<close> of that range.
\<close>

record extractGQL =
  queryId :: int
  queryTransformers :: "(document_node \<Rightarrow> document_node) list"
  extension :: string
  inJsCode :: bool
  hashType :: string
  literalTag :: string

text \<open>\<open>Array.prototype.join("\n")\<close>.\<close>

fun join_lines :: "string list \<Rightarrow> string" where
  "join_lines [] = []"
| "join_lines [x] = x"
| "join_lines (x # y # ys) = x @ [CHR 0x0A] @ join_lines (y # ys)"

text \<open>
  \<open>readInputFile\<close> (lines 228-251). \<open>rd\<close> is what \<open>fs.readFile\<close> would call back with for
  this path; it is looked at only when the extension matches. The two functions of
  \<open>extractFromJS\<close> are arguments: \<open>findLiterals code tag\<close> is
  \<open>findTaggedTemplateLiteralsInJS\<close> and \<open>elimInterp\<close> is \<open>eliminateInterpolations\<close>.
\<close>

definition readGraphQLFile :: "js_error + string \<Rightarrow> string promise" where
  "readGraphQLFile rd = readFile rd"

definition readInputFile ::
  "(string \<Rightarrow> string \<Rightarrow> string list) \<Rightarrow> (string \<Rightarrow> string) \<Rightarrow>
   extractGQL \<Rightarrow> string \<Rightarrow> js_error + string \<Rightarrow> string promise" where
  "readInputFile findLiterals elimInterp this inputFile rd =
     (let ext = getFileExtension inputFile
      in if ext = extension this then
           (if inJsCode this then
              (case readFile rd of
                 Resolved result \<Rightarrow>
                   (let literalContents = findLiterals result (literalTag this);
                        noInterps = map elimInterp literalContents;
                        joined = join_lines noInterps
                    in Resolved joined)
               | Rejected err \<Rightarrow> Rejected err
               | Pending \<Rightarrow> Pending)
            else readGraphQLFile rd)
         else Resolved [])"

subsection \<open>Reading the input tree (lines 253-299)\<close>

text \<open>
  What the file system holds at a path: an entry that \<open>fs.stat\<close> fails on, a file with
  what \<open>fs.readFile\<close> calls back with, a directory that \<open>fs.readdir\<close> fails on, or a
  directory with its entries in listing order. Every entry carries its name in the listing.
\<close>

datatype fs_entry =
    Unstatable string js_error
  | RegularFile string "js_error + string"
  | Unlistable string js_error
  | Directory string "fs_entry list"

fun entry_name :: "fs_entry \<Rightarrow> string" where
  "entry_name (Unstatable n err) = n"
| "entry_name (RegularFile n rd) = n"
| "entry_name (Unlistable n err) = n"
| "entry_name (Directory n items) = n"

text \<open>\<open>ExtractGQL.isDirectory\<close> (lines 121-131).\<close>

fun isDirectory :: "fs_entry \<Rightarrow> bool promise" where
  "isDirectory (Unstatable n err) = Rejected err"
| "isDirectory (RegularFile n rd) = Resolved False"
| "isDirectory (Unlistable n err) = Resolved True"
| "isDirectory (Directory n items) = Resolved True"

text \<open>
  \<open>Promise.all\<close>. The promises settle one after the other, in the order \<open>order\<close> (indices
  into the array; a promise that never settles is passed over). A fulfilled promise puts
  its value into its own slot, the first rejection rejects the whole, and the whole is
  fulfilled with the slots once every slot is filled.
\<close>

fun promiseAllRun :: "'a promise list \<Rightarrow> nat list \<Rightarrow> 'a option list \<Rightarrow> 'a list promise" where
  "promiseAllRun ps [] slots =
     (case those slots of Some vs \<Rightarrow> Resolved vs | None \<Rightarrow> Pending)"
| "promiseAllRun ps (i # order) slots =
     (if i < length ps then
        (case ps ! i of
           Resolved v \<Rightarrow> promiseAllRun ps order (slots[i := Some v])
         | Rejected err \<Rightarrow> Rejected err
         | Pending \<Rightarrow> promiseAllRun ps order slots)
      else promiseAllRun ps order slots)"

definition promiseAll :: "nat list \<Rightarrow> 'a promise list \<Rightarrow> 'a list promise" where
  "promiseAll order ps = promiseAllRun ps order (replicate (length ps) None)"

text \<open>The two functions of \<open>extractFromJS\<close> that \<open>readInputFile\<close> calls.\<close>

record js_extractors =
  findTaggedTemplateLiteralsInJS :: "string \<Rightarrow> string \<Rightarrow> string list"
  eliminateInterpolations :: "string \<Rightarrow> string"

text \<open>
  \<open>readInputPath\<close> (lines 268-299), on the entry found at \<open>inputPath\<close>, one equation for
  each thing \<open>isDirectory\<close> and \<open>readdir\<close> can come to.
  \<open>order p n\<close> is the order in which the \<open>n\<close> promises made for the directory \<open>p\<close> settle.
  \<^item> \<open>isDirectory\<close> rejects: its \<open>then\<close> has no rejection handler, so neither \<open>resolve\<close>
    nor \<open>reject\<close> of the returned promise is called.
  \<^item> \<open>readdir\<close> fails: \<open>reject(err)\<close> is called first, and settles the promise; the
    \<open>TypeError\<close> of \<open>items.map\<close> on \<open>undefined\<close> comes after it.
  \<^item> A directory: \<open>Promise.all(promises).then\<close> has a fulfilment handler only, so a
    rejection of \<open>Promise.all\<close> settles nothing.
  \<^item> A file: both handlers are there.
\<close>

fun readInputPath ::
  "js_extractors \<Rightarrow> (string \<Rightarrow> nat \<Rightarrow> nat list) \<Rightarrow> extractGQL \<Rightarrow> string \<Rightarrow> fs_entry \<Rightarrow>
   string promise" where
  "readInputPath js order this inputPath (Unstatable n err) = Pending"
| "readInputPath js order this inputPath (Unlistable n err) = Rejected err"
| "readInputPath js order this inputPath (Directory n items) =
     (let promises = map (\<lambda>item. readInputPath js order this
                                   (inputPath @ ''/'' @ entry_name item) item) items
      in case promiseAll (order inputPath (length promises)) promises of
           Resolved queryStrings \<Rightarrow> Resolved (foldl (\<lambda>x y. x @ y) [] queryStrings)
         | Rejected err \<Rightarrow> Pending
         | Pending \<Rightarrow> Pending)"
| "readInputPath js order this inputPath (RegularFile n rd) =
     (case readInputFile (findTaggedTemplateLiteralsInJS js) (eliminateInterpolations js)
             this inputPath rd of
        Resolved result \<Rightarrow> Resolved result
      | Rejected err \<Rightarrow> Rejected err
      | Pending \<Rightarrow> Pending)"

subsection \<open>Definitions of a document\<close>

text \<open>
  Modelled from the spec: \<open>isFragmentDefinition\<close>, \<open>isOperationDefinition\<close> and
  \<open>getOperationDefinitions\<close> of \<open>extractFromAST\<close> are not among the sources. A document is an
  ordered sequence of definitions, operations and fragments; the operations are taken in
  document order.
\<close>

fun isFragmentDefinition :: "definition_node \<Rightarrow> bool" where
  "isFragmentDefinition (FragmentDefinition n t sels) = True"
| "isFragmentDefinition d = False"

fun isOperationDefinition :: "definition_node \<Rightarrow> bool" where
  "isOperationDefinition (OperationDefinition ty n sels) = True"
| "isOperationDefinition d = False"

definition getOperationDefinitions :: "document_node \<Rightarrow> definition_node list" where
  "getOperationDefinitions doc = filter isOperationDefinition (definitions doc)"

text \<open>The \<open>name.value\<close> and the \<open>selectionSet\<close> of a definition, where it has one.\<close>

fun definition_name :: "definition_node \<Rightarrow> string option" where
  "definition_name (OperationDefinition ty n sels) = n"
| "definition_name (FragmentDefinition n t sels) = Some n"
| "definition_name (OtherDefinition k) = None"

fun selectionSet :: "definition_node \<Rightarrow> selection list" where
  "selectionSet (OperationDefinition ty n sels) = sels"
| "selectionSet (FragmentDefinition n t sels) = sels"
| "selectionSet (OtherDefinition k) = []"

subsection \<open>The fragments an operation requires\<close>

text \<open>
  Modelled from the spec: \<open>getFragmentNames\<close> of \<open>extractFromAST\<close> is not among the sources.
  Section 4.5 of the specification: scan the selection set recursively (fields, inline
  fragments, fragment spreads) for the spread names; these are the first required names.
  A pass scans every required fragment that has not been scanned yet, adds the names
  found and marks the scanned ones; the passes stop when one adds no name. A name with no
  fragment definition has nothing to scan. Of several definitions of one name, the first
  in document order is the one scanned (section 3).
\<close>

fun spreadsOf :: "selection \<Rightarrow> string list" where
  "spreadsOf (Field n sels) = concat (map spreadsOf sels)"
| "spreadsOf (FragmentSpread n) = [n]"
| "spreadsOf (InlineFragment sels) = concat (map spreadsOf sels)"

definition spreadNames :: "selection list \<Rightarrow> string list" where
  "spreadNames sels = concat (map spreadsOf sels)"

fun fragmentSelections :: "definition_node list \<Rightarrow> string \<Rightarrow> selection list" where
  "fragmentSelections [] n = []"
| "fragmentSelections (FragmentDefinition m t sels # ds) n =
     (if m = n then sels else fragmentSelections ds n)"
| "fragmentSelections (d # ds) n = fragmentSelections ds n"

fun addNames :: "string list \<Rightarrow> string list \<Rightarrow> string list" where
  "addNames required [] = required"
| "addNames required (n # ns) =
     (if n \<in> set required then addNames required ns else addNames (required @ [n]) ns)"

definition scanPass :: "definition_node list \<Rightarrow> string list \<times> string list \<Rightarrow> string list \<times> string list" where
  "scanPass defs st =
     (let required = fst st; visited = snd st;
          unvisited = filter (\<lambda>n. n \<notin> set visited) required;
          found = concat (map (\<lambda>n. spreadNames (fragmentSelections defs n)) unvisited)
      in (addNames required found, visited @ unvisited))"

text \<open>Every name a pass can add is spread somewhere in a fragment of the document.\<close>

definition spreadUniverse :: "definition_node list \<Rightarrow> string set" where
  "spreadUniverse defs = (\<Union>d \<in> set defs. set (spreadNames (selectionSet d)))"

lemma addNames_same: "set ns \<subseteq> set required \<Longrightarrow> addNames required ns = required"
  by (induction ns arbitrary: required) auto

lemma set_addNames: "set (addNames required ns) = set required \<union> set ns"
  by (induction required ns rule: addNames.induct) auto

lemma fragmentSelections_universe:
  "set (spreadNames (fragmentSelections defs n)) \<subseteq> spreadUniverse defs"
  by (induction defs n rule: fragmentSelections.induct)
     (auto simp: spreadUniverse_def spreadNames_def)

lemma finite_spreadUniverse: "finite (spreadUniverse defs)"
  by (simp add: spreadUniverse_def)

text \<open>A pass that adds a name leaves fewer names of the document outside the required ones.\<close>

lemma scanPass_measure:
  assumes "fst (scanPass defs st) \<noteq> fst st"
  shows "card (spreadUniverse defs - set (fst (scanPass defs st)))
         < card (spreadUniverse defs - set (fst st))"
proof -
  define found where
    "found = concat (map (\<lambda>n. spreadNames (fragmentSelections defs n))
                         (filter (\<lambda>n. n \<notin> set (snd st)) (fst st)))"
  have req: "fst (scanPass defs st) = addNames (fst st) found"
    by (simp add: scanPass_def found_def Let_def)
  have sub: "set found \<subseteq> spreadUniverse defs"
    using fragmentSelections_universe by (auto simp: found_def)
  from assms req have "\<not> set found \<subseteq> set (fst st)"
    using addNames_same by metis
  then obtain x where x: "x \<in> set found" "x \<notin> set (fst st)" by blast
  have "spreadUniverse defs - set (fst (scanPass defs st))
        \<subset> spreadUniverse defs - set (fst st)"
    using x sub by (auto simp: req set_addNames)
  then show ?thesis
    by (intro psubset_card_mono) (simp_all add: finite_spreadUniverse)
qed

function resolvePasses :: "definition_node list \<Rightarrow> string list \<times> string list \<Rightarrow> string list" where
  "resolvePasses defs st =
     (let st' = scanPass defs st
      in if fst st' = fst st then fst st' else resolvePasses defs st')"
  by pat_completeness auto
termination
  by (relation "measure (\<lambda>(defs, st). card (spreadUniverse defs - set (fst st)))")
     (simp_all add: scanPass_measure)

declare resolvePasses.simps [simp del]

lemma resolvePasses_step:
  "resolvePasses defs st =
     (if fst (scanPass defs st) = fst st then fst st
      else resolvePasses defs (scanPass defs st))"
  by (subst resolvePasses.simps) (simp add: Let_def)

text \<open>The result is the object that maps every required name to 1.\<close>

definition getFragmentNames :: "selection list \<Rightarrow> document_node \<Rightarrow> (string \<rightharpoonup> nat)" where
  "getFragmentNames sels document =
     (let required = resolvePasses (definitions document) (addNames [] (spreadNames sels), [])
      in map_of (map (\<lambda>n. (n, 1)) required))"

subsection \<open>The fragments of a query, in order (lines 301-348)\<close>

text \<open>\<open>Array.prototype.findIndex\<close>: the first index whose element passes, or -1.\<close>

fun findIndex :: "('a \<Rightarrow> bool) \<Rightarrow> 'a list \<Rightarrow> int" where
  "findIndex P [] = -1"
| "findIndex P (x # xs) =
     (if P x then 0 else (let i = findIndex P xs in if i = -1 then -1 else i + 1))"

text \<open>
  Modelled from the spec: \<open>sortFragmentsByName\<close> of \<open>common\<close> is not among the sources.
  Section 4.5: the fragments are sorted by name ascending. The comparator is negative,
  zero or positive as the first name is below, equal to or above the second, in the order
  of strings by character code.
\<close>

fun sortName :: "definition_node \<Rightarrow> string" where
  "sortName (FragmentDefinition n t sels) = n"
| "sortName (OperationDefinition ty (Some n) sels) = n"
| "sortName d = []"

definition sortFragmentsByName :: "definition_node \<Rightarrow> definition_node \<Rightarrow> int" where
  "sortFragmentsByName a b =
     (if sortName a < sortName b then -1 else if sortName a = sortName b then 0 else 1)"

text \<open>
  \<open>Array.prototype.sort\<close> with a comparator, stable: an element goes before the first
  element it does not compare above.
\<close>

fun insertBy :: "('a \<Rightarrow> 'a \<Rightarrow> int) \<Rightarrow> 'a \<Rightarrow> 'a list \<Rightarrow> 'a list" where
  "insertBy cmp x [] = [x]"
| "insertBy cmp x (y # ys) = (if cmp x y \<le> 0 then x # y # ys else y # insertBy cmp x ys)"

definition arraySort :: "('a \<Rightarrow> 'a \<Rightarrow> int) \<Rightarrow> 'a list \<Rightarrow> 'a list" where
  "arraySort cmp xs = foldr (insertBy cmp) xs []"

text \<open>The callback of the \<open>reduce\<close> (lines 317-341).\<close>

definition reduceQueryDefinitions ::
  "(string \<rightharpoonup> nat) \<Rightarrow> definition_node list \<Rightarrow> definition_node \<Rightarrow> definition_node list" where
  "reduceQueryDefinitions queryFragmentNames carry d =
     (case d of
        FragmentDefinition definitionName t sels \<Rightarrow>
          (if queryFragmentNames definitionName = Some 1 then
             (let definitionExists =
                    (findIndex (\<lambda>v. definition_name v = Some definitionName) carry \<noteq> -1)
              in if \<not> definitionExists then carry @ [d] else carry)
           else carry)
      | _ \<Rightarrow> carry)"

definition getQueryFragments :: "document_node \<Rightarrow> definition_node \<Rightarrow> document_node" where
  "getQueryFragments document queryDefinition =
     (let queryFragmentNames = getFragmentNames (selectionSet queryDefinition) document
      in Document (arraySort sortFragmentsByName
                     (foldl (reduceQueryDefinitions queryFragmentNames) [] (definitions document))))"

subsection \<open>Query ids (lines 350-386)\<close>

datatype ident = IdNum int | IdStr string

text \<open>
  \<open>String.prototype.substr(start, length)\<close> and \<open>Buffer.toString("hex")\<close>: two
  lower-case digits for each byte, the high half first.
\<close>

definition substr :: "string \<Rightarrow> nat \<Rightarrow> nat \<Rightarrow> string" where
  "substr s start len = take len (drop start s)"

definition hexDigits :: string where
  "hexDigits = ''0123456789abcdef''"

definition hexDigit :: "nat \<Rightarrow> char" where
  "hexDigit n = hexDigits ! n"

definition toHex :: "8 word list \<Rightarrow> string" where
  "toHex bytes = concat (map (\<lambda>b. [hexDigit (unat b div 16), hexDigit (unat b mod 16)]) bytes)"

text \<open>
  \<open>x += 1\<close> on a double that holds a whole number from 0 to \<open>2 ^ 53\<close>: below \<open>2 ^ 53\<close>
  the sum is exact; at \<open>2 ^ 53\<close> the sum lies half way between two doubles and rounds back
  to \<open>2 ^ 53\<close>, so the number no longer changes.
\<close>

definition plusOne :: "int \<Rightarrow> int" where
  "plusOne x = (if x < 2 ^ 53 then x + 1 else x)"

text \<open>
  \<open>getQueryId\<close>. \<open>digest alg s\<close> is \<open>crypto.createHash(alg).update(s, "utf8").digest("hex")\<close>
  and \<open>rnd\<close> is what \<open>crypto.randomBytes(32)\<close> returns in this call. The result is the
  identifier and the object after the call.
\<close>

definition getQueryId ::
  "(string \<Rightarrow> string \<Rightarrow> string) \<Rightarrow> 8 word list \<Rightarrow> extractGQL \<Rightarrow> string \<Rightarrow> ident \<times> extractGQL" where
  "getQueryId digest rnd this documentQuery =
     (if hashType this = ''md5'' then (IdStr (digest ''md5'' documentQuery), this)
      else if hashType this = ''sha1'' then (IdStr (digest ''sha1'' documentQuery), this)
      else if hashType this = ''sha256'' then (IdStr (digest ''sha256'' documentQuery), this)
      else if hashType this = ''uuid'' then
        (let randomBytes = toHex rnd
         in (IdStr (substr randomBytes 0 8 @ ''-'' @ substr randomBytes 8 4 @ ''-'' @
                    substr randomBytes 12 4 @ ''-'' @ substr randomBytes 16 4 @ ''-'' @
                    substr randomBytes 20 12),
             this))
      else
        (let this' = this\<lparr>queryId := plusOne (queryId this)\<rparr>
         in (IdNum (queryId this'), this')))"

subsection \<open>The output map of a document (lines 158-193, 211-222)\<close>

text \<open>
  Modelled from the spec: \<open>applyQueryTransformers\<close> of \<open>common\<close> is not among the sources.
  Section 4.4: the transformers are applied left to right from the configured list.
\<close>

definition applyQueryTransformers ::
  "document_node \<Rightarrow> (document_node \<Rightarrow> document_node) list \<Rightarrow> document_node" where
  "applyQueryTransformers document transformers = foldl (\<lambda>d t. t d) document transformers"

text \<open>
  What the extraction calls outside this file: \<open>getQueryDocumentKey\<close> of \<open>common\<close> (it
  prints a document, given the transformers), the digest of \<open>crypto\<close>, and \<open>parse\<close> and
  \<open>separateOperations\<close> of the GraphQL library (the latter as the list of its entries, in
  the order of \<open>Object.keys\<close>).
\<close>

record externals =
  getQueryDocumentKey :: "document_node \<Rightarrow> (document_node \<Rightarrow> document_node) list \<Rightarrow> string"
  createHash :: "string \<Rightarrow> string \<Rightarrow> string"
  parse :: "string \<Rightarrow> js_error + document_node"
  separateOperations :: "document_node \<Rightarrow> (string \<times> document_node) list"

type_synonym outputMap = "string \<rightharpoonup> ident"

text \<open>
  Lines 182-189: the fragments of the query, with the query put in front
  (\<open>definitions.unshift\<close>). This is the document \<open>getQueryDocumentKey\<close> is called on.
\<close>

definition queryWithFragments :: "document_node \<Rightarrow> definition_node \<Rightarrow> document_node" where
  "queryWithFragments transformedDocument transformedDefinition =
     (let transformedQueryWithFragments = getQueryFragments transformedDocument transformedDefinition
      in Document (transformedDefinition # definitions transformedQueryWithFragments))"

text \<open>
  The \<open>forEach\<close> of lines 181-191, from its \<open>i\<close>-th round on. \<open>rnd i\<close> is what
  \<open>crypto.randomBytes\<close> returns in round \<open>i\<close>.
\<close>

fun forEachDefinition ::
  "externals \<Rightarrow> (nat \<Rightarrow> 8 word list) \<Rightarrow> document_node \<Rightarrow> definition_node list \<Rightarrow> nat \<Rightarrow>
   outputMap \<times> extractGQL \<Rightarrow> outputMap \<times> extractGQL" where
  "forEachDefinition ext rnd transformedDocument [] i st = st"
| "forEachDefinition ext rnd transformedDocument (transformedDefinition # rest) i st =
     (let result = fst st; this = snd st;
          docQueryKey = getQueryDocumentKey ext
                          (queryWithFragments transformedDocument transformedDefinition)
                          (queryTransformers this);
          assigned = getQueryId (createHash ext) (rnd i) this docQueryKey
      in forEachDefinition ext rnd transformedDocument rest (Suc i)
           (result(docQueryKey \<mapsto> fst assigned), snd assigned))"

definition createMapFromDocument ::
  "externals \<Rightarrow> (nat \<Rightarrow> 8 word list) \<Rightarrow> extractGQL \<Rightarrow> document_node \<Rightarrow> outputMap \<times> extractGQL" where
  "createMapFromDocument ext rnd this document =
     (let transformedDocument = applyQueryTransformers document (queryTransformers this);
          queryDefinitions = getOperationDefinitions transformedDocument
      in forEachDefinition ext rnd transformedDocument queryDefinitions 0 (Map.empty, this))"

text \<open>
  \<open>createOutputMapFromString\<close>: one map per entry of \<open>separateOperations\<close>, merged with
  later maps winning. A syntax error of \<open>parse\<close> is thrown. \<open>rnd j\<close> serves the \<open>j\<close>-th
  entry.
\<close>

fun mapDocuments ::
  "externals \<Rightarrow> (nat \<Rightarrow> nat \<Rightarrow> 8 word list) \<Rightarrow> (string \<times> document_node) list \<Rightarrow> nat \<Rightarrow>
   extractGQL \<Rightarrow> outputMap list \<times> extractGQL" where
  "mapDocuments ext rnd [] j this = ([], this)"
| "mapDocuments ext rnd (entry # rest) j this =
     (let document = snd entry;
          first = createMapFromDocument ext (rnd j) this document;
          others = mapDocuments ext rnd rest (Suc j) (snd first)
      in (fst first # fst others, snd others))"

definition createOutputMapFromString ::
  "externals \<Rightarrow> (nat \<Rightarrow> nat \<Rightarrow> 8 word list) \<Rightarrow> extractGQL \<Rightarrow> string \<Rightarrow>
   js_error + outputMap \<times> extractGQL" where
  "createOutputMapFromString ext rnd this docString =
     (case parse ext docString of
        Inl err \<Rightarrow> Inl err
      | Inr doc \<Rightarrow>
          (let docMap = separateOperations ext doc;
               resultMaps = mapDocuments ext rnd docMap 0 this
           in Inr (foldl (\<lambda>m m'. m ++ m') Map.empty (fst resultMaps), snd resultMaps)))"

text \<open>\<open>processInputPath\<close> (lines 256-266): the string is parsed once the read has resolved.\<close>

definition processInputPath ::
  "externals \<Rightarrow> js_extractors \<Rightarrow> (string \<Rightarrow> nat \<Rightarrow> nat list) \<Rightarrow> (nat \<Rightarrow> nat \<Rightarrow> 8 word list) \<Rightarrow>
   extractGQL \<Rightarrow> string \<Rightarrow> fs_entry \<Rightarrow> (outputMap \<times> extractGQL) promise" where
  "processInputPath ext js order rnd this inputPath entry =
     (case readInputPath js order this inputPath entry of
        Resolved docString \<Rightarrow>
          (case createOutputMapFromString ext rnd this docString of
             Inl err \<Rightarrow> Rejected err
           | Inr r \<Rightarrow> Resolved r)
      | Rejected err \<Rightarrow> Rejected err
      | Pending \<Rightarrow> Pending)"

subsection \<open>The command line (lines 44-52, 133-151, 473-531)\<close>

definition HASH_TYPES :: "string list" where
  "HASH_TYPES = [''md5'', ''sha1'', ''sha256'', ''sequential'', ''uuid'']"

text \<open>
  The arguments as \<open>yargs\<close> hands them over: the positional ones and the options \<open>main\<close>
  reads. An option that was not given is \<open>undefined\<close>; \<open>undefined\<close> and the empty string
  are falsy.
\<close>

record yargsv =
  positional :: "string list"
  arg_add_typename :: bool
  arg_js :: bool
  arg_extension :: "string option"
  arg_hash :: "string option"
  arg_redisUrl :: "string option"
  arg_redisPrefix :: "string option"

record extractGQLOptions =
  opt_inputFilePath :: "string option"
  opt_outputFilePath :: "string option"
  opt_queryTransformers :: "(document_node \<Rightarrow> document_node) list"
  opt_extension :: "string option"
  opt_inJsCode :: "bool option"
  opt_hashType :: "string option"
  opt_redisUrl :: "string option"
  opt_redisPrefix :: "string option"

fun truthy :: "string option \<Rightarrow> bool" where
  "truthy None = False"
| "truthy (Some s) = (s \<noteq> [])"

text \<open>
  How \<open>main\<close> ends: \<open>process.exit\<close> with a status, or the call
  \<open>new ExtractGQL(options).extract()\<close> with the options built.
\<close>

datatype main_outcome = ProcessExit int | Extract extractGQLOptions

definition main :: "(document_node \<Rightarrow> document_node) \<Rightarrow> yargsv \<Rightarrow> main_outcome" where
  "main addTypenameTransformer argv =
     (let args = positional argv;
          inputFilePath = (if length args < 1 then None else Some (args ! 0));
          outputFilePath = (if length args < 1 then None
                            else if length args = 1 then None else Some (args ! 1));
          transformers = (if arg_add_typename argv then [addTypenameTransformer] else []);
          options = \<lparr>opt_inputFilePath = inputFilePath, opt_outputFilePath = outputFilePath,
                     opt_queryTransformers = transformers, opt_extension = None,
                     opt_inJsCode = None, opt_hashType = None, opt_redisUrl = None,
                     opt_redisPrefix = None\<rparr>;
          options1 = (if arg_js argv then options\<lparr>opt_inJsCode := Some True\<rparr> else options);
          options2 = (if truthy (arg_extension argv)
                      then options1\<lparr>opt_extension := arg_extension argv\<rparr> else options1)
      in if truthy (arg_hash argv) \<and> findIndex (\<lambda>t. Some t = arg_hash argv) HASH_TYPES = -1
         then ProcessExit 1
         else
           (let options3 = (if truthy (arg_hash argv)
                            then options2\<lparr>opt_hashType := arg_hash argv\<rparr> else options2);
                options4 = (if truthy (arg_redisUrl argv)
                            then options3\<lparr>opt_redisUrl := arg_redisUrl argv\<rparr> else options3);
                options5 = (if truthy (arg_redisPrefix argv)
                            then options4\<lparr>opt_redisPrefix := arg_redisPrefix argv\<rparr> else options4)
            in Extract options5))"

text \<open>The constructor (lines 133-151) with its defaults, and the field initialisers.\<close>

definition newExtractGQL :: "extractGQLOptions \<Rightarrow> extractGQL" where
  "newExtractGQL opts =
     \<lparr>queryId = 0,
      queryTransformers = opt_queryTransformers opts,
      extension = (case opt_extension opts of None \<Rightarrow> ''graphql'' | Some e \<Rightarrow> e),
      inJsCode = (case opt_inJsCode opts of None \<Rightarrow> False | Some b \<Rightarrow> b),
      hashType = (case opt_hashType opts of None \<Rightarrow> ''sequential'' | Some h \<Rightarrow> h),
      literalTag = ''gql''\<rparr>"

subsection \<open>Concrete inputs\<close>

definition noOptions :: extractGQLOptions where
  "noOptions =
     \<lparr>opt_inputFilePath = None, opt_outputFilePath = None, opt_queryTransformers = [],
      opt_extension = None, opt_inJsCode = None, opt_hashType = None, opt_redisUrl = None,
      opt_redisPrefix = None\<rparr>"

definition noLiterals :: js_extractors where
  "noLiterals =
     \<lparr>findTaggedTemplateLiteralsInJS = (\<lambda>code tag. []), eliminateInterpolations = (\<lambda>s. s)\<rparr>"

definition uuidOptions :: extractGQLOptions where
  "uuidOptions = noOptions\<lparr>opt_hashType := Some ''uuid''\<rparr>"

definition md5Options :: extractGQLOptions where
  "md5Options = noOptions\<lparr>opt_hashType := Some ''md5''\<rparr>"

definition namesKey :: "document_node \<Rightarrow> (document_node \<Rightarrow> document_node) list \<Rightarrow> string" where
  "namesKey doc transformers =
     concat (map (\<lambda>d. case definition_name d of Some n \<Rightarrow> n | None \<Rightarrow> []) (definitions doc))"

definition toyExternals :: externals where
  "toyExternals =
     \<lparr>getQueryDocumentKey = namesKey,
      createHash = (\<lambda>alg s. alg @ '':'' @ s),
      parse = (\<lambda>s. Inl (GraphQLError s)),
      separateOperations = (\<lambda>doc. [])\<rparr>"

definition queryNamed :: "string \<Rightarrow> definition_node" where
  "queryNamed n = OperationDefinition Query (Some n) [Field ''id'' []]"

definition repeatedQueries :: document_node where
  "repeatedQueries =
     Document [queryNamed ''A'', queryNamed ''B'', queryNamed ''A'', queryNamed ''B'',
               queryNamed ''C'']"

definition unreadableTree :: fs_entry where
  "unreadableTree =
     Directory ''queries''
       [RegularFile ''a.graphql'' (Inr ''query A { id }''),
        RegularFile ''b.graphql'' (Inl (FsError ''EACCES''))]"

definition twoFiles :: fs_entry where
  "twoFiles =
     Directory ''queries''
       [RegularFile ''a.graphql'' (Inr ''query A { id } ''),
        RegularFile ''notes.txt'' (Inr ''not a query''),
        Directory ''more'' [RegularFile ''b.graphql'' (Inr ''query B { id }'')]]"

definition inListingOrder :: "string \<Rightarrow> nat \<Rightarrow> nat list" where
  "inListingOrder p n = [0..<n]"

definition lastFirst :: "string \<Rightarrow> nat \<Rightarrow> nat list" where
  "lastFirst p n = rev [0..<n]"

definition emptyHashArgs :: yargsv where
  "emptyHashArgs =
     \<lparr>positional = [''queries''], arg_add_typename = False, arg_js = False,
      arg_extension = None, arg_hash = Some [], arg_redisUrl = None, arg_redisPrefix = None\<rparr>"

definition crc32Args :: yargsv where
  "crc32Args = emptyHashArgs\<lparr>arg_hash := Some ''crc32''\<rparr>"

definition crc32Options :: extractGQLOptions where
  "crc32Options = noOptions\<lparr>opt_hashType := Some ''crc32''\<rparr>"

definition cyclicFragments :: document_node where
  "cyclicFragments =
     Document
       [FragmentDefinition ''F2'' ''T'' [Field ''b'' [], FragmentSpread ''F1''],
        OperationDefinition Query (Some ''Q'') [Field ''root'' [FragmentSpread ''F1'']],
        FragmentDefinition ''F1'' ''T'' [Field ''a'' [], FragmentSpread ''F2''],
        FragmentDefinition ''F1'' ''T'' [Field ''later'' []],
        FragmentDefinition ''F3'' ''T'' [Field ''unused'' []]]"

definition cyclicQuery :: definition_node where
  "cyclicQuery = OperationDefinition Query (Some ''Q'') [Field ''root'' [FragmentSpread ''F1'']]"

subsection \<open>Auxiliary definitions\<close>

text \<open>One round of the \<open>forEach\<close> under a digest strategy, as a step on the map alone.\<close>

definition digestStep ::
  "externals \<Rightarrow> document_node \<Rightarrow> extractGQL \<Rightarrow> outputMap \<Rightarrow> definition_node \<Rightarrow> outputMap" where
  "digestStep ext td this m d =
     (let k = getQueryDocumentKey ext (queryWithFragments td d) (queryTransformers this)
      in m(k \<mapsto> IdStr (createHash ext (hashType this) k)))"

text \<open>The values of a list of promises when every one of them is fulfilled.\<close>

fun resolvedValues :: "'a promise list \<Rightarrow> 'a list option" where
  "resolvedValues [] = Some []"
| "resolvedValues (Resolved v # ps) = map_option (\<lambda>vs. v # vs) (resolvedValues ps)"
| "resolvedValues (p # ps) = None"

text \<open>
  The names an operation requires, as the specification puts it (section 4.5): the names
  spread in its selection set, and the names spread in the fragment of a required name.
  The invariant of the passes is stated against it.
\<close>

inductive requires :: "definition_node list \<Rightarrow> selection list \<Rightarrow> string \<Rightarrow> bool"
  for defs :: "definition_node list" and sels :: "selection list" where
  direct: "n \<in> set (spreadNames sels) \<Longrightarrow> requires defs sels n"
| through: "requires defs sels m \<Longrightarrow> n \<in> set (spreadNames (fragmentSelections defs m)) \<Longrightarrow>
            requires defs sels n"

definition passInvariant ::
  "definition_node list \<Rightarrow> selection list \<Rightarrow> string list \<times> string list \<Rightarrow> bool" where
  "passInvariant defs sels st \<longleftrightarrow>
     set (snd st) \<subseteq> set (fst st) \<and>
     (\<forall>m \<in> set (snd st). set (spreadNames (fragmentSelections defs m)) \<subseteq> set (fst st)) \<and>
     (\<forall>n \<in> set (fst st). requires defs sels n) \<and>
     set (spreadNames sels) \<subseteq> set (fst st)"

section \<open>Searching an array\<close>

lemma findIndex_none: "findIndex P xs = -1 \<longleftrightarrow> (\<forall>x \<in> set xs. \<not> P x)"
proof (induction xs)
  case Nil
  then show ?case by simp
next
  case (Cons x xs)
  have "findIndex P xs \<ge> -1" for xs :: "'a list"
    by (induction xs) (auto simp: Let_def)
  from this [of xs] Cons show ?case by (auto simp: Let_def)
qed

section \<open>File extensions\<close>

lemma split_on_nonempty: "split_on c s \<noteq> []"
  by (induction s) (auto split: list.splits)

lemma split_on_single: "length (split_on c s) \<le> 1 \<longleftrightarrow> c \<notin> set s"
proof (induction s)
  case Nil
  then show ?case by simp
next
  case (Cons x xs)
  then show ?case
    using split_on_nonempty [of c xs]
    by (cases "split_on c xs") auto
qed

lemma last_split_on_no_sep: "c \<notin> set (last (split_on c s))"
proof (induction s)
  case Nil
  then show ?case by simp
next
  case (Cons x xs)
  then show ?case
    using split_on_nonempty [of c xs]
    by (cases "split_on c xs") (auto split: if_splits)
qed

lemma last_split_on_suffix:
  "c \<in> set s \<Longrightarrow> \<exists>pre. s = pre @ c # last (split_on c s)"
proof (induction s)
  case Nil
  then show ?case by simp
next
  case (Cons x xs)
  show ?case
  proof (cases "c \<in> set xs")
    case True
    with Cons.IH obtain pre where pre: "xs = pre @ c # last (split_on c xs)" by blast
    from True have "\<not> length (split_on c xs) \<le> 1" using split_on_single [of c xs] by simp
    then obtain p q qs where sp: "split_on c xs = p # q # qs"
      by (cases "split_on c xs"; cases "tl (split_on c xs)") auto
    have "last (split_on c (x # xs)) = last (split_on c xs)"
      by (simp add: sp)
    with pre have "x # xs = (x # pre) @ c # last (split_on c (x # xs))" by simp
    then show ?thesis by blast
  next
    case False
    with Cons.prems have xc: "x = c" by simp
    from False have "split_on c xs = [xs]"
      by (induction xs) (auto split: list.splits)
    then have "last (split_on c (x # xs)) = xs" using xc by simp
    then have "x # xs = [] @ c # last (split_on c (x # xs))" using xc by simp
    then show ?thesis by blast
  qed
qed

text \<open>
  C10, as amended. For every file path: when the basename has no dot the extension is
  empty; when it has one, the extension is what follows the last dot of the basename and
  has no dot itself. The extension is empty exactly when the basename has no dot or ends
  with a dot. A basename \<open>.graphql\<close> has the extension \<open>graphql\<close>, and with that
  extension configured \<open>readInputFile\<close> reads the file.
\<close>

theorem getFileExtension_last_segment:
  "(CHR ''.'' \<notin> set (basename filePath) \<longrightarrow> getFileExtension filePath = []) \<and>
   (CHR ''.'' \<in> set (basename filePath) \<longrightarrow>
      (\<exists>pre. basename filePath = pre @ CHR ''.'' # getFileExtension filePath) \<and>
      CHR ''.'' \<notin> set (getFileExtension filePath)) \<and>
   (getFileExtension filePath = [] \<longleftrightarrow>
      CHR ''.'' \<notin> set (basename filePath) \<or>
      (basename filePath \<noteq> [] \<and> last (basename filePath) = CHR ''.'')) \<and>
   (basename filePath = ''.graphql'' \<longrightarrow> getFileExtension filePath = ''graphql'') \<and>
   (basename filePath = ''.graphql'' \<and> extension this = ''graphql'' \<and> \<not> inJsCode this \<longrightarrow>
      readInputFile fl ei this filePath rd = readFile rd)"
proof -
  let ?b = "basename filePath"
  let ?e = "getFileExtension filePath"
  have nodot: "?e = []" if "CHR ''.'' \<notin> set ?b"
    using that split_on_single [of "CHR ''.''" ?b] by (simp add: getFileExtension_def)
  have dot_last: "?e = last (split_on CHR ''.'' ?b)" if "CHR ''.'' \<in> set ?b"
    using that split_on_single [of "CHR ''.''" ?b] by (simp add: getFileExtension_def)
  have dot: "(\<exists>pre. ?b = pre @ CHR ''.'' # ?e) \<and> CHR ''.'' \<notin> set ?e" if d: "CHR ''.'' \<in> set ?b"
    using last_split_on_suffix [OF d] last_split_on_no_sep [of "CHR ''.''" ?b]
    by (simp add: dot_last [OF d])
  have empty_iff: "?e = [] \<longleftrightarrow> CHR ''.'' \<notin> set ?b \<or> (?b \<noteq> [] \<and> last ?b = CHR ''.'')"
  proof (cases "CHR ''.'' \<in> set ?b")
    case True
    from dot [OF True] obtain pre where pre: "?b = pre @ CHR ''.'' # ?e"
      and no: "CHR ''.'' \<notin> set ?e" by blast
    show ?thesis
    proof (cases "?e = []")
      case e: True
      with pre have "?b = pre @ [CHR ''.'']" by simp
      then have "?b \<noteq> [] \<and> last ?b = CHR ''.''" by simp
      with e show ?thesis by simp
    next
      case e: False
      with pre have "last ?b = last ?e" by (metis last_appendR last_ConsR list.distinct(1))
      moreover from e have "last ?e \<in> set ?e" by simp
      ultimately have "last ?b \<noteq> CHR ''.''" using no by metis
      with e True show ?thesis by simp
    qed
  next
    case False
    with nodot show ?thesis by simp
  qed
  have dotfile: "?e = ''graphql''" if "?b = ''.graphql''"
    using that by (simp add: getFileExtension_def)
  have reads: "readInputFile fl ei this filePath rd = readFile rd"
    if "?b = ''.graphql'' \<and> extension this = ''graphql'' \<and> \<not> inJsCode this"
    using that dotfile by (simp add: readInputFile_def readGraphQLFile_def)
  from nodot dot empty_iff dotfile reads show ?thesis by blast
qed

text \<open>The three cases at \<open>Makefile\<close>, \<open>/src/queries.graphql\<close> and \<open>/src/.graphql\<close>.\<close>

theorem getFileExtension_last_segment_witness:
  "getFileExtension ''Makefile'' = [] \<and>
   CHR ''.'' \<notin> set (getFileExtension ''/src/queries.graphql'') \<and>
   getFileExtension ''/src/.graphql'' = ''graphql'' \<and>
   readInputFile (\<lambda>code tag. []) (\<lambda>s. s) (newExtractGQL noOptions) ''/src/.graphql''
     (Inr ''query A { id }'') = Resolved ''query A { id }''"
proof -
  have b1: "CHR ''.'' \<notin> set (basename ''Makefile'')"
    by (simp add: basename_def)
  have b2: "CHR ''.'' \<in> set (basename ''/src/queries.graphql'')"
    by (simp add: basename_def)
  have b3: "basename ''/src/.graphql'' = ''.graphql''"
    by (simp add: basename_def)
  have e1: "getFileExtension ''Makefile'' = []"
    using getFileExtension_last_segment [of "''Makefile''", THEN conjunct1] b1 by (rule mp)
  have e2: "CHR ''.'' \<notin> set (getFileExtension ''/src/queries.graphql'')"
    using getFileExtension_last_segment [of "''/src/queries.graphql''",
        THEN conjunct2, THEN conjunct1, THEN mp, OF b2]
    by (rule conjunct2)
  have e3: "getFileExtension ''/src/.graphql'' = ''graphql''"
    using getFileExtension_last_segment [of "''/src/.graphql''",
        THEN conjunct2, THEN conjunct2, THEN conjunct2, THEN conjunct1] b3 by (rule mp)
  have cfg: "basename ''/src/.graphql'' = ''.graphql'' \<and>
      extension (newExtractGQL noOptions) = ''graphql'' \<and> \<not> inJsCode (newExtractGQL noOptions)"
    using b3 by (simp add: newExtractGQL_def noOptions_def)
  have "readInputFile (\<lambda>code tag. []) (\<lambda>s. s) (newExtractGQL noOptions) ''/src/.graphql''
     (Inr ''query A { id }'') = readFile (Inr ''query A { id }'')"
    using getFileExtension_last_segment [of "''/src/.graphql''",
        THEN conjunct2, THEN conjunct2, THEN conjunct2, THEN conjunct2] cfg by (rule mp)
  then have e4: "readInputFile (\<lambda>code tag. []) (\<lambda>s. s) (newExtractGQL noOptions) ''/src/.graphql''
     (Inr ''query A { id }'') = Resolved ''query A { id }''"
    by (simp add: readFile_def)
  from e1 e2 e3 e4 show ?thesis by (intro conjI)
qed

text \<open>
  C10 as stated fails: the basename \<open>foo.\<close> has a dot, and its extension is empty, since
  the last of the pieces \<open>["foo", ""]\<close> is returned.
\<close>

theorem getFileExtension_trailing_dot_counterexample:
  "getFileExtension ''foo.'' = [] \<and> CHR ''.'' \<in> set (basename ''foo.'')"
  by (simp add: getFileExtension_def basename_def)

section \<open>Files of another extension\<close>

text \<open>
  C8. For every input file whose extension differs from the configured one,
  \<open>readInputFile\<close> resolves with the empty string whatever a read of the file would give,
  and so does \<open>readInputPath\<close> on that file. When \<open>readInputFile\<close> rejects, the extension
  matched and the error is the one the read failed with.
\<close>

theorem readInputFile_extension_mismatch:
  "(getFileExtension inputFile \<noteq> extension this \<longrightarrow>
      readInputFile fl ei this inputFile rd = Resolved [] \<and>
      readInputPath js order this inputFile (RegularFile n rd) = Resolved []) \<and>
   (readInputFile fl ei this inputFile rd = Rejected err \<longrightarrow>
      getFileExtension inputFile = extension this \<and> rd = Inl err)"
  by (auto simp: readInputFile_def readGraphQLFile_def readFile_def
           split: if_splits sum.splits)

text \<open>
  An unreadable \<open>notes.txt\<close> resolves with the empty string under the default extension
  \<open>graphql\<close>; an unreadable \<open>a.graphql\<close> rejects with the read's error.
\<close>

theorem readInputFile_extension_mismatch_witness:
  "readInputFile (\<lambda>code tag. []) (\<lambda>s. s) (newExtractGQL noOptions) ''/src/notes.txt''
     (Inl (FsError ''EACCES'')) = Resolved [] \<and>
   readInputPath noLiterals (\<lambda>p n. [0..<n]) (newExtractGQL noOptions) ''/src/notes.txt''
     (RegularFile ''notes.txt'' (Inl (FsError ''EACCES''))) = Resolved [] \<and>
   getFileExtension ''/src/a.graphql'' = extension (newExtractGQL noOptions) \<and>
   readInputFile (\<lambda>code tag. []) (\<lambda>s. s) (newExtractGQL noOptions) ''/src/a.graphql''
     (Inl (FsError ''EACCES'')) = Rejected (FsError ''EACCES'')"
proof -
  let ?t = "newExtractGQL noOptions"
  have mismatch: "getFileExtension ''/src/notes.txt'' \<noteq> extension ?t"
    by (simp add: getFileExtension_def basename_def newExtractGQL_def noOptions_def)
  have rejected: "readInputFile (\<lambda>code tag. []) (\<lambda>s. s) ?t ''/src/a.graphql''
     (Inl (FsError ''EACCES'')) = Rejected (FsError ''EACCES'')"
    by (simp add: readInputFile_def readGraphQLFile_def readFile_def getFileExtension_def
        basename_def newExtractGQL_def noOptions_def)
  note m = readInputFile_extension_mismatch [where inputFile = "''/src/notes.txt''"
      and this = ?t, THEN conjunct1, THEN mp, OF mismatch]
  note r = readInputFile_extension_mismatch [where inputFile = "''/src/a.graphql''"
      and this = ?t, THEN conjunct2, THEN mp, OF rejected, THEN conjunct1]
  from m [THEN conjunct1] m [THEN conjunct2] r rejected show ?thesis
    by (intro conjI)
qed

section \<open>Query ids\<close>

lemma length_toHex: "length (toHex bytes) = 2 * length bytes"
  by (induction bytes) (simp_all add: toHex_def)

lemma hexDigit_hex: "n < 16 \<Longrightarrow> hexDigit n \<in> set hexDigits"
proof -
  assume "n < 16"
  then have "n < length hexDigits" by (simp add: hexDigits_def)
  then show ?thesis unfolding hexDigit_def by (rule nth_mem)
qed

lemma toHex_hex: "set (toHex bytes) \<subseteq> set hexDigits"
proof (induction bytes)
  case Nil
  then show ?case by (simp add: toHex_def)
next
  case (Cons b bs)
  have "unat b < 2 ^ LENGTH(8)" by (rule unsigned_less)
  then have "unat b < 256" by simp
  then have hi: "unat b div 16 < 16" by simp
  have lo: "unat b mod 16 < 16" by simp
  have "set (toHex (b # bs)) =
        {hexDigit (unat b div 16), hexDigit (unat b mod 16)} \<union> set (toHex bs)"
    by (auto simp: toHex_def)
  with Cons hexDigit_hex [OF hi] hexDigit_hex [OF lo] show ?case by simp
qed

text \<open>
  C9. With the strategy \<open>uuid\<close> and the 32 bytes of \<open>crypto.randomBytes(32)\<close>,
  \<open>getQueryId\<close> returns five groups of 8, 4, 4, 4 and 12 characters joined by dashes,
  32 characters in all, each a hexadecimal digit; the object is unchanged, and the result
  is the same for any two keys.
\<close>

theorem getQueryId_uuid_shape:
  assumes uuid: "hashType this = ''uuid''" and len: "length rnd = 32"
  shows "(\<exists>a b c d e.
            getQueryId digest rnd this key =
              (IdStr (a @ ''-'' @ b @ ''-'' @ c @ ''-'' @ d @ ''-'' @ e), this) \<and>
            length a = 8 \<and> length b = 4 \<and> length c = 4 \<and> length d = 4 \<and> length e = 12 \<and>
            length (a @ b @ c @ d @ e) = 32 \<and>
            set (a @ b @ c @ d @ e) \<subseteq> set hexDigits) \<and>
         getQueryId digest rnd this key = getQueryId digest rnd this key'"
proof -
  let ?h = "toHex rnd"
  let ?a = "substr ?h 0 8" and ?b = "substr ?h 8 4" and ?c = "substr ?h 12 4"
    and ?d = "substr ?h 16 4" and ?e = "substr ?h 20 12"
  have l: "length ?h = 64" using len by (simp add: length_toHex)
  have val: "getQueryId digest rnd this k =
      (IdStr (?a @ ''-'' @ ?b @ ''-'' @ ?c @ ''-'' @ ?d @ ''-'' @ ?e), this)" for k
    using uuid by (simp add: getQueryId_def Let_def)
  have lens: "length ?a = 8" "length ?b = 4" "length ?c = 4" "length ?d = 4" "length ?e = 12"
    using l by (simp_all add: substr_def)
  have sub: "set (substr ?h i n) \<subseteq> set hexDigits" for i n
  proof -
    have "set (substr ?h i n) \<subseteq> set ?h"
      unfolding substr_def by (meson set_take_subset set_drop_subset subset_trans)
    then show ?thesis using toHex_hex [of rnd] by (rule subset_trans)
  qed
  have hex: "set (?a @ ?b @ ?c @ ?d @ ?e) \<subseteq> set hexDigits"
    using sub [of 0 8] sub [of 8 4] sub [of 12 4] sub [of 16 4] sub [of 20 12]
    by (simp only: set_append Un_subset_iff conj_assoc)
  have total: "length (?a @ ?b @ ?c @ ?d @ ?e) = 32" using lens by simp
  from val [of key] lens total hex have first: "\<exists>a b c d e.
            getQueryId digest rnd this key =
              (IdStr (a @ ''-'' @ b @ ''-'' @ c @ ''-'' @ d @ ''-'' @ e), this) \<and>
            length a = 8 \<and> length b = 4 \<and> length c = 4 \<and> length d = 4 \<and> length e = 12 \<and>
            length (a @ b @ c @ d @ e) = 32 \<and>
            set (a @ b @ c @ d @ e) \<subseteq> set hexDigits"
    by blast
  from val [of key] val [of key'] have "getQueryId digest rnd this key = getQueryId digest rnd this key'"
    by simp
  with first show ?thesis by (rule conjI)
qed

text \<open>The shape at 32 bytes \<open>0xAB\<close>, for the keys \<open>query A\<close> and \<open>query B\<close>.\<close>

theorem getQueryId_uuid_shape_witness:
  "(\<exists>a b c d e.
      getQueryId (\<lambda>alg s. s) (replicate 32 (0xAB :: 8 word)) (newExtractGQL uuidOptions) ''query A'' =
        (IdStr (a @ ''-'' @ b @ ''-'' @ c @ ''-'' @ d @ ''-'' @ e), newExtractGQL uuidOptions) \<and>
      length a = 8 \<and> length b = 4 \<and> length c = 4 \<and> length d = 4 \<and> length e = 12 \<and>
      length (a @ b @ c @ d @ e) = 32 \<and>
      set (a @ b @ c @ d @ e) \<subseteq> set hexDigits) \<and>
   getQueryId (\<lambda>alg s. s) (replicate 32 (0xAB :: 8 word)) (newExtractGQL uuidOptions) ''query A'' =
   getQueryId (\<lambda>alg s. s) (replicate 32 (0xAB :: 8 word)) (newExtractGQL uuidOptions) ''query B''"
proof -
  have uuid: "hashType (newExtractGQL uuidOptions) = ''uuid''"
    by (simp add: newExtractGQL_def uuidOptions_def noOptions_def)
  have len: "length (replicate 32 (0xAB :: 8 word)) = 32" by simp
  show ?thesis by (rule getQueryId_uuid_shape [OF uuid len])
qed


lemma getQueryId_digest:
  assumes "hashType this \<in> {''md5'', ''sha1'', ''sha256''}"
  shows "getQueryId digest rnd this key = (IdStr (digest (hashType this) key), this)"
  using assms by (auto simp: getQueryId_def)

lemma forEachDefinition_digest:
  assumes "hashType this \<in> {''md5'', ''sha1'', ''sha256''}"
  shows "forEachDefinition ext rnd td ds i (result, this) =
           (foldl (digestStep ext td this) result ds, this)"
proof (induction ds arbitrary: i result)
  case Nil
  then show ?case by simp
next
  case (Cons d ds)
  show ?case
    by (simp add: Let_def getQueryId_digest [OF assms] Cons.IH digestStep_def)
qed

lemma digestStep_values:
  assumes "\<And>k v. m k = Some v \<Longrightarrow> v = IdStr (createHash ext (hashType this) k)"
  shows "foldl (digestStep ext td this) m ds k = Some v \<Longrightarrow>
         v = IdStr (createHash ext (hashType this) k)"
  using assms
proof (induction ds arbitrary: m)
  case Nil
  then show ?case by simp
next
  case (Cons d ds)
  have "\<And>k v. digestStep ext td this m d k = Some v \<Longrightarrow>
          v = IdStr (createHash ext (hashType this) k)"
    using Cons.prems(2) by (auto simp: digestStep_def Let_def split: if_splits)
  with Cons.IH [of "digestStep ext td this m d"] Cons.prems(1) show ?case by simp
qed

text \<open>
  C5. With the strategy \<open>md5\<close>, \<open>sha1\<close> or \<open>sha256\<close>, \<open>getQueryId\<close> returns the digest of
  the key under that algorithm and leaves the object unchanged. The identifier does not
  depend on the random bytes or on the counter, so two runs of \<open>createMapFromDocument\<close> on
  one document, whatever their counters and random bytes, give the same map; and every
  value of the map is the digest of its key.
\<close>

theorem getQueryId_digest_deterministic:
  assumes h: "hashType this \<in> {''md5'', ''sha1'', ''sha256''}"
  shows "getQueryId digest bytes this key = (IdStr (digest (hashType this) key), this) \<and>
         fst (getQueryId digest bytes this key) =
           fst (getQueryId digest bytes' (this\<lparr>queryId := q\<rparr>) key) \<and>
         fst (createMapFromDocument ext rnd this doc) =
           fst (createMapFromDocument ext rnd' (this\<lparr>queryId := q\<rparr>) doc) \<and>
         (\<forall>k v. fst (createMapFromDocument ext rnd this doc) k = Some v \<longrightarrow>
                v = IdStr (createHash ext (hashType this) k))"
proof -
  let ?other = "this\<lparr>queryId := q\<rparr>"
  have h': "hashType ?other \<in> {''md5'', ''sha1'', ''sha256''}" using h by simp
  have one: "getQueryId digest bytes this key = (IdStr (digest (hashType this) key), this)"
    by (rule getQueryId_digest [OF h])
  have two: "fst (getQueryId digest bytes this key) = fst (getQueryId digest bytes' ?other key)"
    by (simp add: getQueryId_digest [OF h] getQueryId_digest [OF h'])
  have step: "digestStep ext td ?other = digestStep ext td this" for td
    by (rule ext)+ (simp add: digestStep_def)
  have runs: "fst (createMapFromDocument ext rnd this doc) =
              fst (createMapFromDocument ext rnd' ?other doc)"
    by (simp add: createMapFromDocument_def Let_def forEachDefinition_digest [OF h]
        forEachDefinition_digest [OF h'] step)
  have vals: "v = IdStr (createHash ext (hashType this) k)"
    if "fst (createMapFromDocument ext rnd this doc) k = Some v" for k v
  proof -
    from that have "foldl (digestStep ext (applyQueryTransformers doc (queryTransformers this)) this)
                      Map.empty (getOperationDefinitions
                        (applyQueryTransformers doc (queryTransformers this))) k = Some v"
      by (simp add: createMapFromDocument_def Let_def forEachDefinition_digest [OF h])
    then show ?thesis by (rule digestStep_values [rotated]) simp
  qed
  from one two runs vals show ?thesis by blast
qed


text \<open>Two runs with \<open>md5\<close> on a document of five queries, one from counter 0 and one from 7.\<close>

theorem getQueryId_digest_deterministic_witness:
  "getQueryId (createHash toyExternals) [] (newExtractGQL md5Options) ''A'' =
     (IdStr (createHash toyExternals (hashType (newExtractGQL md5Options)) ''A''),
      newExtractGQL md5Options) \<and>
   fst (createMapFromDocument toyExternals (\<lambda>i. []) (newExtractGQL md5Options) repeatedQueries) =
   fst (createMapFromDocument toyExternals (\<lambda>i. replicate 32 1)
          ((newExtractGQL md5Options)\<lparr>queryId := 7\<rparr>) repeatedQueries)"
proof -
  have h: "hashType (newExtractGQL md5Options) \<in> {''md5'', ''sha1'', ''sha256''}"
    by (simp add: newExtractGQL_def md5Options_def noOptions_def)
  note t = getQueryId_digest_deterministic [OF h]
  from t [THEN conjunct1] t [THEN conjunct2, THEN conjunct2, THEN conjunct1]
  show ?thesis by (intro conjI)
qed

lemma sequential_step:
  assumes "hashType this = ''sequential''" and "queryId this < 2 ^ 53"
  shows "getQueryId digest bytes this key =
           (IdNum (queryId this + 1), this\<lparr>queryId := queryId this + 1\<rparr>)"
  using assms by (simp add: getQueryId_def plusOne_def Let_def)

text \<open>
  C1, as amended. With the strategy \<open>sequential\<close> every call of \<open>getQueryId\<close> with the
  counter below \<open>2 ^ 53\<close> adds one to it and returns the new value, whatever the key. \<open>createMapFromDocument\<close> calls
  it for every operation and stores the result under the key, a later one over an earlier
  one: when a fresh object meets the keys A, B, A, B, C (A, B and C distinct) the map ends
  as A to 3, B to 4, C to 5, one entry for each key, and the counter at 5.
\<close>

theorem createMapFromDocument_sequential_overwrites:
  assumes seq: "hashType this = ''sequential''" and fresh: "queryId this = 0"
    and keys: "map (\<lambda>d. getQueryDocumentKey ext
                     (queryWithFragments (applyQueryTransformers doc (queryTransformers this)) d)
                     (queryTransformers this))
                 (getOperationDefinitions (applyQueryTransformers doc (queryTransformers this)))
               = [A, B, A, B, C]"
    and dist: "A \<noteq> B" "A \<noteq> C" "B \<noteq> C"
  shows "createMapFromDocument ext rnd this doc =
           ([A \<mapsto> IdNum 3, B \<mapsto> IdNum 4, C \<mapsto> IdNum 5], this\<lparr>queryId := 5\<rparr>) \<and>
         (\<forall>q. 0 \<le> q \<and> q < 2 ^ 53 \<longrightarrow>
              getQueryId digest bytes (this\<lparr>queryId := q\<rparr>) key =
                (IdNum (q + 1), this\<lparr>queryId := q + 1\<rparr>))"
proof -
  let ?td = "applyQueryTransformers doc (queryTransformers this)"
  let ?key = "\<lambda>d. getQueryDocumentKey ext (queryWithFragments ?td d) (queryTransformers this)"
  from keys obtain d1 d2 d3 d4 d5 where
    ds: "getOperationDefinitions ?td = [d1, d2, d3, d4, d5]" and
    k: "?key d1 = A" "?key d2 = B" "?key d3 = A" "?key d4 = B" "?key d5 = C"
    by (auto simp: map_eq_Cons_conv)
  have step: "getQueryId dg b (this\<lparr>queryId := q\<rparr>) x =
                (IdNum (q + 1), this\<lparr>queryId := q + 1\<rparr>)" if "q < 2 ^ 53" for dg b q x
    using sequential_step [of "this\<lparr>queryId := q\<rparr>"] seq that by simp
  have this0: "this = this\<lparr>queryId := 0\<rparr>" using fresh by simp
  have run: "forEachDefinition ext rnd ?td [d1, d2, d3, d4, d5] 0 (Map.empty, this\<lparr>queryId := 0\<rparr>) =
               (Map.empty(A \<mapsto> IdNum 1, B \<mapsto> IdNum 2, A \<mapsto> IdNum 3, B \<mapsto> IdNum 4, C \<mapsto> IdNum 5),
                this\<lparr>queryId := 5\<rparr>)"
    by (simp add: Let_def step k)
  have m: "Map.empty(A \<mapsto> IdNum 1, B \<mapsto> IdNum 2, A \<mapsto> IdNum 3, B \<mapsto> IdNum 4, C \<mapsto> IdNum 5) =
           [A \<mapsto> IdNum 3, B \<mapsto> IdNum 4, C \<mapsto> IdNum 5]"
    using dist by (auto simp: fun_eq_iff)
  have "createMapFromDocument ext rnd this doc =
          forEachDefinition ext rnd ?td [d1, d2, d3, d4, d5] 0 (Map.empty, this\<lparr>queryId := 0\<rparr>)"
    using this0 by (simp add: createMapFromDocument_def Let_def ds)
  also note run
  also note m
  finally have first: "createMapFromDocument ext rnd this doc =
           ([A \<mapsto> IdNum 3, B \<mapsto> IdNum 4, C \<mapsto> IdNum 5], this\<lparr>queryId := 5\<rparr>)" .
  have "\<forall>q. 0 \<le> q \<and> q < 2 ^ 53 \<longrightarrow>
              getQueryId digest bytes (this\<lparr>queryId := q\<rparr>) key =
                (IdNum (q + 1), this\<lparr>queryId := q + 1\<rparr>)"
    using step by blast
  with first show ?thesis by (rule conjI)
qed

lemma repeatedQueries_keys:
  "map (\<lambda>d. getQueryDocumentKey toyExternals
             (queryWithFragments (applyQueryTransformers repeatedQueries
                (queryTransformers (newExtractGQL noOptions))) d)
             (queryTransformers (newExtractGQL noOptions)))
       (getOperationDefinitions (applyQueryTransformers repeatedQueries
          (queryTransformers (newExtractGQL noOptions))))
   = [''A'', ''B'', ''A'', ''B'', ''C'']"
  by code_simp

text \<open>
  Five queries named A, B, A, B, C, keyed by their names; and the call that meets A again
  with the counter at 2.
\<close>

theorem createMapFromDocument_sequential_overwrites_witness:
  "createMapFromDocument toyExternals (\<lambda>i. []) (newExtractGQL noOptions) repeatedQueries =
     ([''A'' \<mapsto> IdNum 3, ''B'' \<mapsto> IdNum 4, ''C'' \<mapsto> IdNum 5],
      (newExtractGQL noOptions)\<lparr>queryId := 5\<rparr>) \<and>
   getQueryId (createHash toyExternals) [] ((newExtractGQL noOptions)\<lparr>queryId := 2\<rparr>) ''A'' =
     (IdNum 3, (newExtractGQL noOptions)\<lparr>queryId := 3\<rparr>)"
proof -
  have seq: "hashType (newExtractGQL noOptions) = ''sequential''"
    by (simp add: newExtractGQL_def noOptions_def)
  have fresh: "queryId (newExtractGQL noOptions) = 0"
    by (simp add: newExtractGQL_def)
  have dist: "''A'' \<noteq> ''B''" "''A'' \<noteq> ''C''" "''B'' \<noteq> ''C''"
    by simp_all
  note t = createMapFromDocument_sequential_overwrites [OF seq fresh repeatedQueries_keys dist]
  have range: "(0::int) \<le> 2 \<and> (2::int) < 2 ^ 53" by simp
  have "getQueryId (createHash toyExternals) [] ((newExtractGQL noOptions)\<lparr>queryId := 2\<rparr>) ''A'' =
     (IdNum (2 + 1), (newExtractGQL noOptions)\<lparr>queryId := 2 + 1\<rparr>)"
    using t [THEN conjunct2, THEN spec, of 2] range by (rule mp)
  then have second: "getQueryId (createHash toyExternals) []
      ((newExtractGQL noOptions)\<lparr>queryId := 2\<rparr>) ''A'' =
     (IdNum 3, (newExtractGQL noOptions)\<lparr>queryId := 3\<rparr>)"
    by simp
  from t [THEN conjunct1] second show ?thesis by (intro conjI)
qed

text \<open>
  C1 as stated fails: on the five queries the second A is given 3 and the second B is
  given 4, the counter reaches 5, and the map holds A to 3 and B to 4, not 1 and 2.
\<close>

theorem createMapFromDocument_repeated_counterexample:
  "fst (createMapFromDocument toyExternals (\<lambda>i. []) (newExtractGQL noOptions) repeatedQueries) ''A''
     = Some (IdNum 3) \<and>
   fst (createMapFromDocument toyExternals (\<lambda>i. []) (newExtractGQL noOptions) repeatedQueries) ''B''
     = Some (IdNum 4) \<and>
   fst (createMapFromDocument toyExternals (\<lambda>i. []) (newExtractGQL noOptions) repeatedQueries) ''C''
     = Some (IdNum 5) \<and>
   queryId (snd (createMapFromDocument toyExternals (\<lambda>i. []) (newExtractGQL noOptions)
                   repeatedQueries)) = 5"
  by code_simp

section \<open>Reading a tree\<close>

lemma those_map_Some: "those (map Some vs) = Some vs"
  by (induction vs) simp_all

lemma those_Some_D: "those slots = Some vs \<Longrightarrow> slots = map Some vs"
  by (induction slots arbitrary: vs) (auto split: option.splits)

lemma promiseAllRun_resolved_D:
  assumes "promiseAllRun ps order slots = Resolved vs"
    and "length slots = length ps"
    and "\<And>i v. i < length ps \<Longrightarrow> slots ! i = Some v \<Longrightarrow> ps ! i = Resolved v"
  shows "ps = map Resolved vs"
  using assms
proof (induction order arbitrary: slots)
  case Nil
  from Nil.prems(1) have "those slots = Some vs" by (simp split: option.splits)
  then have slots: "slots = map Some vs" by (rule those_Some_D)
  with Nil.prems(2) have len: "length vs = length ps" by simp
  show ?case
  proof (rule nth_equalityI)
    show "length ps = length (map Resolved vs)" using len by simp
  next
    fix i assume i: "i < length ps"
    with slots len have "slots ! i = Some (vs ! i)" by simp
    with Nil.prems(3) [OF i] have "ps ! i = Resolved (vs ! i)" by simp
    with i len show "ps ! i = map Resolved vs ! i" by simp
  qed
next
  case (Cons j order)
  show ?case
  proof (cases "j < length ps")
    case False
    with Cons.prems(1) have "promiseAllRun ps order slots = Resolved vs" by simp
    then show ?thesis using Cons.prems(2,3) by (rule Cons.IH)
  next
    case True
    show ?thesis
    proof (cases "ps ! j")
      case (Resolved v)
      with True Cons.prems(1) have run: "promiseAllRun ps order (slots[j := Some v]) = Resolved vs"
        by simp
      have inv: "ps ! i = Resolved w"
        if "i < length ps" "slots[j := Some v] ! i = Some w" for i w
        using that Resolved Cons.prems(2,3) by (cases "i = j") auto
      from run show ?thesis
        by (rule Cons.IH) (use Cons.prems(2) inv in auto)
    next
      case (Rejected err)
      with True Cons.prems(1) show ?thesis by simp
    next
      case Pending
      with True Cons.prems(1) have "promiseAllRun ps order slots = Resolved vs" by simp
      then show ?thesis using Cons.prems(2,3) by (rule Cons.IH)
    qed
  qed
qed

lemma promiseAllRun_all_resolved:
  assumes "length slots = length vs"
    and "\<And>i. i < length vs \<Longrightarrow> slots ! i = Some (vs ! i) \<or> (slots ! i = None \<and> i \<in> set order)"
  shows "promiseAllRun (map Resolved vs) order slots = Resolved vs"
  using assms
proof (induction order arbitrary: slots)
  case Nil
  have "slots = map Some vs"
    by (rule nth_equalityI) (use Nil.prems in auto)
  then show ?case by (simp add: those_map_Some)
next
  case (Cons j order)
  show ?case
  proof (cases "j < length vs")
    case True
    have "promiseAllRun (map Resolved vs) order (slots[j := Some (vs ! j)]) = Resolved vs"
    proof (rule Cons.IH)
      show "length (slots[j := Some (vs ! j)]) = length vs" using Cons.prems(1) by simp
    next
      fix i assume i: "i < length vs"
      with Cons.prems(2) [OF i] Cons.prems(1)
      show "slots[j := Some (vs ! j)] ! i = Some (vs ! i) \<or>
            (slots[j := Some (vs ! j)] ! i = None \<and> i \<in> set order)"
        by (cases "i = j") auto
    qed
    with True show ?thesis by simp
  next
    case False
    have "promiseAllRun (map Resolved vs) order slots = Resolved vs"
    proof (rule Cons.IH [OF Cons.prems(1)])
      fix i assume i: "i < length vs"
      with Cons.prems(2) [OF i] False
      show "slots ! i = Some (vs ! i) \<or> (slots ! i = None \<and> i \<in> set order)" by auto
    qed
    with False show ?thesis by simp
  qed
qed

lemma promiseAll_resolved_iff:
  assumes "{0..<length ps} \<subseteq> set order"
  shows "promiseAll order ps = Resolved vs \<longleftrightarrow> ps = map Resolved vs"
proof
  assume "promiseAll order ps = Resolved vs"
  then show "ps = map Resolved vs"
    unfolding promiseAll_def by (rule promiseAllRun_resolved_D) simp_all
next
  assume ps: "ps = map Resolved vs"
  have "promiseAllRun (map Resolved vs) order (replicate (length vs) None) = Resolved vs"
    by (rule promiseAllRun_all_resolved) (use assms ps in auto)
  with ps show "promiseAll order ps = Resolved vs" by (simp add: promiseAll_def)
qed

lemma foldl_append_concat: "foldl (\<lambda>x y. x @ y) acc ts = acc @ concat ts"
  by (induction ts arbitrary: acc) simp_all

lemma resolvedValues_Some_iff: "resolvedValues ps = Some vs \<longleftrightarrow> ps = map Resolved vs"
proof (induction ps arbitrary: vs)
  case Nil
  then show ?case by auto
next
  case (Cons p ps)
  then show ?case by (cases p; cases vs) auto
qed

lemma promiseAll_fair:
  assumes "{0..<length ps} \<subseteq> set order"
  shows "(case promiseAll order ps of Resolved vs \<Rightarrow> Some vs | Rejected err \<Rightarrow> None | Pending \<Rightarrow> None)
         = resolvedValues ps"
proof (cases "resolvedValues ps")
  case None
  then have "\<And>vs. promiseAll order ps \<noteq> Resolved vs"
    using promiseAll_resolved_iff [OF assms] resolvedValues_Some_iff [of ps] by auto
  with None show ?thesis by (simp split: promise.splits)
next
  case (Some vs)
  then have "promiseAll order ps = Resolved vs"
    using promiseAll_resolved_iff [OF assms] resolvedValues_Some_iff [of ps] by auto
  with Some show ?thesis by simp
qed

lemma readInputPath_directory:
  assumes "{0..<length items} \<subseteq> set (order p (length items))"
  shows "readInputPath js order this p (Directory nm items) =
         (case resolvedValues
                 (map (\<lambda>item. readInputPath js order this (p @ ''/'' @ entry_name item) item) items) of
            Some ts \<Rightarrow> Resolved (concat ts)
          | None \<Rightarrow> Pending)"
proof -
  let ?ps = "map (\<lambda>item. readInputPath js order this (p @ ''/'' @ entry_name item) item) items"
  have fair: "{0..<length ?ps} \<subseteq> set (order p (length ?ps))" using assms by simp
  have dir: "readInputPath js order this p (Directory nm items) =
         (case promiseAll (order p (length ?ps)) ?ps of
            Resolved queryStrings \<Rightarrow> Resolved (concat queryStrings)
          | Rejected err \<Rightarrow> Pending
          | Pending \<Rightarrow> Pending)"
    by (simp add: Let_def foldl_append_concat cong: promise.case_cong)
  show ?thesis
  proof (cases "promiseAll (order p (length ?ps)) ?ps")
    case (Resolved vs)
    with promiseAll_fair [OF fair] have "resolvedValues ?ps = Some vs" by simp
    with Resolved show ?thesis unfolding dir by simp
  next
    case (Rejected err)
    with promiseAll_fair [OF fair] have "resolvedValues ?ps = None" by simp
    with Rejected show ?thesis unfolding dir by simp
  next
    case Pending
    with promiseAll_fair [OF fair] have "resolvedValues ?ps = None" by simp
    with Pending show ?thesis unfolding dir by simp
  qed
qed

lemma readInputPath_order_irrelevant:
  assumes "\<And>q n. {0..<n} \<subseteq> set (order q n)" and "\<And>q n. {0..<n} \<subseteq> set (order' q n)"
  shows "readInputPath js order this p entry = readInputPath js order' this p entry"
proof (induction entry arbitrary: p)
  case (Directory nm items)
  have ps: "map (\<lambda>item. readInputPath js order this (p @ ''/'' @ entry_name item) item) items =
            map (\<lambda>item. readInputPath js order' this (p @ ''/'' @ entry_name item) item) items"
    using Directory.IH by simp
  have f: "{0..<length items} \<subseteq> set (order p (length items))" by (rule assms(1))
  have f': "{0..<length items} \<subseteq> set (order' p (length items))" by (rule assms(2))
  show ?case
    by (simp only: ps
          readInputPath_directory [where order = order and p = p and items = items, OF f]
          readInputPath_directory [where order = order' and p = p and items = items, OF f'])
qed simp_all

lemma processInputPath_directory:
  assumes "{0..<length items} \<subseteq> set (order p (length items))"
  shows "processInputPath ext js order rnd this p (Directory nm items) =
         (case resolvedValues
                 (map (\<lambda>item. readInputPath js order this (p @ ''/'' @ entry_name item) item) items) of
            Some ts \<Rightarrow>
              (case createOutputMapFromString ext rnd this (concat ts) of
                 Inl err \<Rightarrow> Rejected err
               | Inr r \<Rightarrow> Resolved r)
          | None \<Rightarrow> Pending)"
  unfolding processInputPath_def
    readInputPath_directory [where order = order and p = p and items = items, OF assms]
  by (simp split: option.splits)

text \<open>
  C6. Let every promise that settles get its turn, in whatever order. For a directory,
  \<open>readInputPath\<close> resolves with a string exactly when the read of every entry resolves,
  and the string is then the concatenation of the entries' strings in listing order. The
  outcome is the same under any two such orders. \<open>processInputPath\<close> hands to the parser
  this whole concatenation and nothing else; when an entry does not resolve, nothing is
  parsed.
\<close>

theorem readInputPath_listing_order:
  assumes fair: "\<And>q n. {0..<n} \<subseteq> set (order q n)"
    and fair': "\<And>q n. {0..<n} \<subseteq> set (order' q n)"
  shows "(readInputPath js order this p (Directory nm items) = Resolved s \<longleftrightarrow>
            (\<exists>ts. map (\<lambda>item. readInputPath js order this (p @ ''/'' @ entry_name item) item) items
                    = map Resolved ts \<and> s = concat ts)) \<and>
         readInputPath js order this p entry = readInputPath js order' this p entry \<and>
         processInputPath ext js order rnd this p (Directory nm items) =
           (case resolvedValues
                   (map (\<lambda>item. readInputPath js order this (p @ ''/'' @ entry_name item) item) items) of
              Some ts \<Rightarrow>
                (case createOutputMapFromString ext rnd this (concat ts) of
                   Inl err \<Rightarrow> Rejected err
                 | Inr r \<Rightarrow> Resolved r)
            | None \<Rightarrow> Pending)"
proof -
  let ?ps = "map (\<lambda>item. readInputPath js order this (p @ ''/'' @ entry_name item) item) items"
  have f: "{0..<length items} \<subseteq> set (order p (length items))" by (rule fair)
  note dir = readInputPath_directory [where order = order and p = p and items = items, OF f]
  have concat: "readInputPath js order this p (Directory nm items) = Resolved s \<longleftrightarrow>
            (\<exists>ts. ?ps = map Resolved ts \<and> s = concat ts)"
  proof (cases "resolvedValues ?ps")
    case None
    have "?ps \<noteq> map Resolved ts" for ts
    proof
      assume "?ps = map Resolved ts"
      then have "resolvedValues ?ps = Some ts" by (rule resolvedValues_Some_iff [THEN iffD2])
      with None show False by simp
    qed
    with None show ?thesis unfolding dir by simp
  next
    case (Some vs)
    then have vs: "?ps = map Resolved vs"
      by (rule resolvedValues_Some_iff [THEN iffD1])
    have "ts = vs" if "?ps = map Resolved ts" for ts
    proof -
      from that [symmetric] vs have "map Resolved ts = map Resolved vs" by (rule trans)
      then show ?thesis by (simp add: inj_map_eq_map inj_def)
    qed
    with Some vs show ?thesis unfolding dir by auto
  qed
  from concat readInputPath_order_irrelevant [OF fair fair']
    processInputPath_directory [where order = order and p = p and items = items, OF f]
  show ?thesis by (intro conjI)
qed

lemma inListingOrder_fair: "{0..<n} \<subseteq> set (inListingOrder q n)"
  by (simp add: inListingOrder_def)

lemma lastFirst_fair: "{0..<n} \<subseteq> set (lastFirst q n)"
  by (simp add: lastFirst_def)

text \<open>
  A directory with two files and a subdirectory, the promises settling last to first and
  first to last.
\<close>

theorem readInputPath_listing_order_witness:
  "readInputPath noLiterals lastFirst (newExtractGQL noOptions) ''queries'' twoFiles =
     readInputPath noLiterals inListingOrder (newExtractGQL noOptions) ''queries'' twoFiles \<and>
   readInputPath noLiterals inListingOrder (newExtractGQL noOptions) ''queries'' twoFiles =
     Resolved ''query A { id } query B { id }''"
proof -
  have "readInputPath noLiterals inListingOrder (newExtractGQL noOptions) ''queries'' twoFiles =
     Resolved ''query A { id } query B { id }''"
    by code_simp
  with readInputPath_listing_order [OF lastFirst_fair inListingOrder_fair, THEN conjunct2,
      THEN conjunct1]
  show ?thesis by (intro conjI)
qed

lemma readInputPath_directory_never_rejects:
  "readInputPath js order this p (Directory nm items) \<noteq> Rejected err"
  by (simp add: Let_def split: promise.splits)

text \<open>
  C2, where the code departs from it. Whatever the entries of a directory come to,
  \<open>readInputPath\<close> on the directory does not reject, and on an entry that \<open>fs.stat\<close> fails
  on it never settles. A file \<open>b.graphql\<close> whose read fails rejects when read on its
  own; the directory that holds it neither resolves nor rejects, and neither does
  \<open>processInputPath\<close> on it.
\<close>

theorem readInputPath_failure_never_settles:
  "readInputPath js order this p (Directory nm items) \<noteq> Rejected err \<and>
   isDirectory (Unstatable nm err) = Rejected err \<and>
   readInputPath js order this p (Unstatable nm err) = Pending \<and>
   readInputPath noLiterals inListingOrder (newExtractGQL noOptions) ''queries/b.graphql''
     (RegularFile ''b.graphql'' (Inl (FsError ''EACCES''))) = Rejected (FsError ''EACCES'') \<and>
   readInputPath noLiterals inListingOrder (newExtractGQL noOptions) ''queries'' unreadableTree
     = Pending \<and>
   processInputPath toyExternals noLiterals inListingOrder (\<lambda>j i. []) (newExtractGQL noOptions)
     ''queries'' unreadableTree = Pending"
proof -
  have onefile: "readInputPath noLiterals inListingOrder (newExtractGQL noOptions) ''queries/b.graphql''
     (RegularFile ''b.graphql'' (Inl (FsError ''EACCES''))) = Rejected (FsError ''EACCES'')"
    by code_simp
  have tree: "readInputPath noLiterals inListingOrder (newExtractGQL noOptions) ''queries''
     unreadableTree = Pending"
    by code_simp
  then have whole: "processInputPath toyExternals noLiterals inListingOrder (\<lambda>j i. [])
     (newExtractGQL noOptions) ''queries'' unreadableTree = Pending"
    by (simp add: processInputPath_def)
  have stat: "isDirectory (Unstatable nm err) = Rejected err \<and>
      readInputPath js order this p (Unstatable nm err) = Pending" by simp
  from readInputPath_directory_never_rejects stat [THEN conjunct1] stat [THEN conjunct2]
    onefile tree whole
  show ?thesis by (intro conjI)
qed

section \<open>The hash option of the command line\<close>

text \<open>
  C7, as amended. When \<open>main\<close> gets a hash option that is truthy and not one of
  \<open>HASH_TYPES\<close>, it ends in \<open>process.exit(1)\<close> and the extraction is never started. A
  falsy hash option, the empty string included, is not checked: the extraction is started
  with no hash type, which the constructor turns into \<open>sequential\<close>. An object constructed
  with a hash type outside \<open>HASH_TYPES\<close> is not refused: \<open>getQueryId\<close> takes its default
  branch and numbers the keys from 1.
\<close>

theorem main_rejects_unknown_hash:
  "(truthy (arg_hash argv) \<and> arg_hash argv \<notin> Some ` set HASH_TYPES \<longrightarrow>
      main addTypename argv = ProcessExit 1) \<and>
   (\<not> truthy (arg_hash argv) \<longrightarrow>
      (\<exists>opts. main addTypename argv = Extract opts \<and> opt_hashType opts = None \<and>
              hashType (newExtractGQL opts) = ''sequential'')) \<and>
   (h \<notin> set HASH_TYPES \<longrightarrow>
      getQueryId digest bytes (newExtractGQL (opts\<lparr>opt_hashType := Some h\<rparr>)) key =
        (IdNum 1, (newExtractGQL (opts\<lparr>opt_hashType := Some h\<rparr>))\<lparr>queryId := 1\<rparr>))"
proof (intro conjI impI)
  assume a: "truthy (arg_hash argv) \<and> arg_hash argv \<notin> Some ` set HASH_TYPES"
  have "\<not> Some t = arg_hash argv" if t: "t \<in> set HASH_TYPES" for t
  proof
    assume "Some t = arg_hash argv"
    then have "arg_hash argv = Some t" by (rule sym)
    with t have "arg_hash argv \<in> Some ` set HASH_TYPES" by (simp add: image_iff)
    with a show False by simp
  qed
  then have "findIndex (\<lambda>t. Some t = arg_hash argv) HASH_TYPES = -1"
    by (simp add: findIndex_none)
  with a show "main addTypename argv = ProcessExit 1"
    by (simp add: main_def Let_def)
next
  assume "\<not> truthy (arg_hash argv)"
  then show "\<exists>opts. main addTypename argv = Extract opts \<and> opt_hashType opts = None \<and>
              hashType (newExtractGQL opts) = ''sequential''"
    by (simp add: main_def Let_def newExtractGQL_def)
next
  assume "h \<notin> set HASH_TYPES"
  then show "getQueryId digest bytes (newExtractGQL (opts\<lparr>opt_hashType := Some h\<rparr>)) key =
        (IdNum 1, (newExtractGQL (opts\<lparr>opt_hashType := Some h\<rparr>))\<lparr>queryId := 1\<rparr>)"
    by (simp add: getQueryId_def plusOne_def Let_def newExtractGQL_def HASH_TYPES_def)
qed

text \<open>
  The command line with \<open>--hash crc32\<close> exits; with an empty hash it extracts; an object
  made with \<open>crc32\<close> gives the first key the number 1.
\<close>

theorem main_rejects_unknown_hash_witness:
  "main (\<lambda>d. d) crc32Args = ProcessExit 1 \<and>
   (\<exists>opts. main (\<lambda>d. d) emptyHashArgs = Extract opts \<and> opt_hashType opts = None \<and>
           hashType (newExtractGQL opts) = ''sequential'') \<and>
   fst (getQueryId (\<lambda>alg s. s) [] (newExtractGQL crc32Options) ''query A'') = IdNum 1"
proof -
  have a: "truthy (arg_hash crc32Args) \<and> arg_hash crc32Args \<notin> Some ` set HASH_TYPES"
    by (simp add: crc32Args_def emptyHashArgs_def HASH_TYPES_def image_def)
  have b: "\<not> truthy (arg_hash emptyHashArgs)"
    by (simp add: emptyHashArgs_def)
  have c: "''crc32'' \<notin> set HASH_TYPES"
    by (simp add: HASH_TYPES_def)
  have one: "main (\<lambda>d. d) crc32Args = ProcessExit 1"
    using main_rejects_unknown_hash [THEN conjunct1] a by (rule mp)
  have two: "\<exists>opts. main (\<lambda>d. d) emptyHashArgs = Extract opts \<and> opt_hashType opts = None \<and>
           hashType (newExtractGQL opts) = ''sequential''"
    using main_rejects_unknown_hash [THEN conjunct2, THEN conjunct1] b by (rule mp)
  have "getQueryId (\<lambda>alg s. s) [] (newExtractGQL (noOptions\<lparr>opt_hashType := Some ''crc32''\<rparr>))
          ''query A'' =
        (IdNum 1, (newExtractGQL (noOptions\<lparr>opt_hashType := Some ''crc32''\<rparr>))\<lparr>queryId := 1\<rparr>)"
    using main_rejects_unknown_hash [THEN conjunct2, THEN conjunct2] c by (rule mp)
  then have three: "fst (getQueryId (\<lambda>alg s. s) [] (newExtractGQL crc32Options) ''query A'') = IdNum 1"
    by (simp add: crc32Options_def)
  from one two three show ?thesis by (intro conjI)
qed

text \<open>
  C7 as stated fails: the empty string is not one of the five strategies, and \<open>main\<close>
  starts the extraction with it; \<open>crc32\<close> is not one either, and an object constructed
  with it assigns identifiers, 1 to the first key and 5 to the fifth query of a document.
\<close>

theorem main_unknown_hash_counterexample:
  "[] \<notin> set HASH_TYPES \<and>
   main (\<lambda>d. d) emptyHashArgs = Extract (noOptions\<lparr>opt_inputFilePath := Some ''queries''\<rparr>) \<and>
   ''crc32'' \<notin> set HASH_TYPES \<and>
   fst (getQueryId (\<lambda>alg s. s) [] (newExtractGQL crc32Options) ''query A'') = IdNum 1 \<and>
   fst (createMapFromDocument toyExternals (\<lambda>i. []) (newExtractGQL crc32Options) repeatedQueries) ''C''
     = Some (IdNum 5)"
proof -
  have "fst (createMapFromDocument toyExternals (\<lambda>i. []) (newExtractGQL crc32Options) repeatedQueries) ''C''
     = Some (IdNum 5)"
    by code_simp
  moreover have "main (\<lambda>d. d) emptyHashArgs = Extract (noOptions\<lparr>opt_inputFilePath := Some ''queries''\<rparr>)"
    by (simp add: main_def emptyHashArgs_def noOptions_def Let_def)
  moreover have "fst (getQueryId (\<lambda>alg s. s) [] (newExtractGQL crc32Options) ''query A'') = IdNum 1"
    by (simp add: getQueryId_def plusOne_def crc32Options_def noOptions_def newExtractGQL_def Let_def)
  ultimately show ?thesis by (simp add: HASH_TYPES_def)
qed

section \<open>The fragments of a query\<close>

lemma set_insertBy: "set (insertBy cmp x ys) = insert x (set ys)"
  by (induction ys) auto

lemma set_arraySort: "set (arraySort cmp xs) = set xs"
  by (induction xs) (simp_all add: arraySort_def set_insertBy)

lemma distinct_map_insertBy:
  "distinct (map f (insertBy cmp x ys)) \<longleftrightarrow> f x \<notin> f ` set ys \<and> distinct (map f ys)"
  by (induction ys) (auto simp: set_insertBy)

lemma distinct_map_arraySort:
  "distinct (map f (arraySort cmp xs)) \<longleftrightarrow> distinct (map f xs)"
  by (induction xs) (simp_all add: arraySort_def distinct_map_insertBy set_arraySort [unfolded arraySort_def])

lemma sortFragmentsByName_le: "sortFragmentsByName a b \<le> 0 \<longleftrightarrow> sortName a \<le> sortName b"
  by (auto simp: sortFragmentsByName_def)

lemma sorted_insertBy:
  "sorted (map sortName ys) \<Longrightarrow> sorted (map sortName (insertBy sortFragmentsByName x ys))"
proof (induction ys)
  case Nil
  then show ?case by simp
next
  case (Cons y ys)
  show ?case
  proof (cases "sortName x \<le> sortName y")
    case True
    with Cons.prems show ?thesis
      by (auto simp: sortFragmentsByName_le)
  next
    case False
    then have "sortName y \<le> sortName x" by simp
    with False Cons show ?thesis
      by (auto simp: sortFragmentsByName_le set_insertBy)
  qed
qed

lemma sorted_arraySort: "sorted (map sortName (arraySort sortFragmentsByName xs))"
  by (induction xs) (simp_all add: arraySort_def sorted_insertBy)

lemma fragment_name: "isFragmentDefinition v \<Longrightarrow> definition_name v = Some (sortName v)"
  by (cases v) simp_all

text \<open>What is in the carry of the reduce after the definitions \<open>ds\<close>.\<close>

lemma reduce_fragments:
  assumes "\<forall>v \<in> set acc. isFragmentDefinition v"
  shows "\<forall>v \<in> set (foldl (reduceQueryDefinitions q) acc ds). isFragmentDefinition v"
  using assms
proof (induction ds arbitrary: acc)
  case Nil
  then show ?case by simp
next
  case (Cons d ds)
  have "\<forall>v \<in> set (reduceQueryDefinitions q acc d). isFragmentDefinition v"
    using Cons.prems by (auto simp: reduceQueryDefinitions_def Let_def split: definition_node.splits)
  then show ?case using Cons.IH by simp
qed

lemma reduce_distinct:
  assumes "\<forall>v \<in> set acc. isFragmentDefinition v" and "distinct (map sortName acc)"
  shows "distinct (map sortName (foldl (reduceQueryDefinitions q) acc ds))"
  using assms
proof (induction ds arbitrary: acc)
  case Nil
  then show ?case by simp
next
  case (Cons d ds)
  let ?acc = "reduceQueryDefinitions q acc d"
  have frs: "\<forall>v \<in> set ?acc. isFragmentDefinition v"
    using Cons.prems(1) by (auto simp: reduceQueryDefinitions_def Let_def split: definition_node.splits)
  have "distinct (map sortName ?acc)"
  proof (cases d)
    case (FragmentDefinition n t sels)
    have "sortName v \<noteq> n" if "v \<in> set acc" "\<forall>x\<in>set acc. definition_name x \<noteq> Some n" for v
      using that Cons.prems(1) fragment_name [of v] by auto
    with FragmentDefinition Cons.prems(2) show ?thesis
      by (auto simp: reduceQueryDefinitions_def Let_def findIndex_none)
  qed (use Cons.prems(2) in \<open>simp_all add: reduceQueryDefinitions_def\<close>)
  with frs show ?case using Cons.IH by simp
qed

lemma reduce_members:
  assumes "\<forall>v \<in> set acc. isFragmentDefinition v"
  shows "f \<in> set (foldl (reduceQueryDefinitions q) acc ds) \<longleftrightarrow>
         f \<in> set acc \<or>
         (\<exists>n. q n = Some 1 \<and> (\<forall>v \<in> set acc. definition_name v \<noteq> Some n) \<and>
              find (\<lambda>x. isFragmentDefinition x \<and> definition_name x = Some n) ds = Some f)"
  using assms
proof (induction ds arbitrary: acc)
  case Nil
  then show ?case by simp
next
  case (Cons d ds)
  let ?acc = "reduceQueryDefinitions q acc d"
  let ?P = "\<lambda>n x. isFragmentDefinition x \<and> definition_name x = Some n"
  have frs: "\<forall>v \<in> set ?acc. isFragmentDefinition v"
    using Cons.prems by (auto simp: reduceQueryDefinitions_def Let_def split: definition_node.splits)
  note IH = Cons.IH [OF frs]
  show ?case
  proof (cases "\<exists>m. ?P m d \<and> q m = Some 1 \<and> (\<forall>v \<in> set acc. definition_name v \<noteq> Some m)")
    case True
    then obtain m where m: "?P m d" "q m = Some 1" "\<forall>v \<in> set acc. definition_name v \<noteq> Some m"
      by blast
    then have acc': "?acc = acc @ [d]"
      by (cases d) (auto simp: reduceQueryDefinitions_def Let_def findIndex_none)
    have find_d: "find (?P n) (d # ds) = (if n = m then Some d else find (?P n) ds)" for n
      using m(1) by auto
    have step: "f \<in> set (foldl (reduceQueryDefinitions q) acc (d # ds)) \<longleftrightarrow>
         f \<in> set (acc @ [d]) \<or>
         (\<exists>n. q n = Some 1 \<and> (\<forall>v \<in> set (acc @ [d]). definition_name v \<noteq> Some n) \<and>
              find (?P n) ds = Some f)"
      using IH by (simp only: foldl_Cons acc')
    show ?thesis
      unfolding step using m by (auto simp: find_d)
  next
    case False
    then have acc': "?acc = acc"
      by (cases d) (auto simp: reduceQueryDefinitions_def Let_def findIndex_none)
    have np: "\<not> ?P n d"
      if "q n = Some 1" "\<forall>v \<in> set acc. definition_name v \<noteq> Some n" for n
      using that False by blast
    have step: "f \<in> set (foldl (reduceQueryDefinitions q) acc (d # ds)) \<longleftrightarrow>
         f \<in> set acc \<or>
         (\<exists>n. q n = Some 1 \<and> (\<forall>v \<in> set acc. definition_name v \<noteq> Some n) \<and>
              find (?P n) ds = Some f)"
      using IH by (simp only: foldl_Cons acc')
    show ?thesis
      unfolding step using np by auto
  qed
qed

lemma scanPass_sets:
  "set (fst (scanPass defs st)) =
     set (fst st) \<union> (\<Union>m \<in> set (fst st) - set (snd st). set (spreadNames (fragmentSelections defs m)))"
  "set (snd (scanPass defs st)) = set (snd st) \<union> set (fst st)"
  by (auto simp: scanPass_def Let_def set_addNames)

lemma passInvariant_scanPass:
  assumes "passInvariant defs sels st"
  shows "passInvariant defs sels (scanPass defs st)"
proof -
  from assms have a: "set (snd st) \<subseteq> set (fst st)"
    and b: "\<And>m. m \<in> set (snd st) \<Longrightarrow> set (spreadNames (fragmentSelections defs m)) \<subseteq> set (fst st)"
    and c: "\<And>n. n \<in> set (fst st) \<Longrightarrow> requires defs sels n"
    and d: "set (spreadNames sels) \<subseteq> set (fst st)"
    by (auto simp: passInvariant_def)
  have a': "set (snd (scanPass defs st)) \<subseteq> set (fst (scanPass defs st))"
    using a by (auto simp: scanPass_sets)
  have b': "set (spreadNames (fragmentSelections defs m)) \<subseteq> set (fst (scanPass defs st))"
    if "m \<in> set (snd (scanPass defs st))" for m
  proof (cases "m \<in> set (snd st)")
    case True
    from b [OF True] show ?thesis by (auto simp: scanPass_sets)
  next
    case False
    with that have "m \<in> set (fst st) - set (snd st)" by (auto simp: scanPass_sets)
    then show ?thesis by (auto simp: scanPass_sets)
  qed
  have c': "requires defs sels n" if "n \<in> set (fst (scanPass defs st))" for n
    using that c by (auto simp: scanPass_sets intro: requires.through)
  have d': "set (spreadNames sels) \<subseteq> set (fst (scanPass defs st))"
    using d by (auto simp: scanPass_sets)
  from a' b' c' d' show ?thesis by (auto simp: passInvariant_def)
qed

lemma passInvariant_fixpoint:
  assumes inv: "passInvariant defs sels st" and stable: "fst (scanPass defs st) = fst st"
  shows "n \<in> set (fst st) \<longleftrightarrow> requires defs sels n"
proof
  assume "n \<in> set (fst st)"
  with inv show "requires defs sels n" by (auto simp: passInvariant_def)
next
  from stable have same: "set (fst (scanPass defs st)) = set (fst st)" by simp
  have closed: "set (spreadNames (fragmentSelections defs m)) \<subseteq> set (fst st)"
    if m: "m \<in> set (fst st)" for m
  proof (cases "m \<in> set (snd st)")
    case True
    with inv show ?thesis by (auto simp: passInvariant_def)
  next
    case False
    with m have "set (spreadNames (fragmentSelections defs m)) \<subseteq> set (fst (scanPass defs st))"
      by (auto simp: scanPass_sets)
    with same show ?thesis by simp
  qed
  assume "requires defs sels n"
  then show "n \<in> set (fst st)"
  proof (induction rule: requires.induct)
    case (direct n)
    with inv show ?case by (auto simp: passInvariant_def)
  next
    case (through m n)
    with closed [of m] show ?case by auto
  qed
qed

lemma resolvePasses_requires:
  "passInvariant defs sels st \<Longrightarrow>
   n \<in> set (resolvePasses defs st) \<longleftrightarrow> requires defs sels n"
proof (induction defs st rule: resolvePasses.induct)
  case (1 defs st)
  show ?case
  proof (cases "fst (scanPass defs st) = fst st")
    case True
    then have "resolvePasses defs st = fst st" by (simp add: resolvePasses_step [of defs st])
    with passInvariant_fixpoint [OF "1.prems" True] show ?thesis by simp
  next
    case False
    then have "resolvePasses defs st = resolvePasses defs (scanPass defs st)"
      by (simp add: resolvePasses_step [of defs st])
    with "1.IH" [OF refl False passInvariant_scanPass [OF "1.prems"]] show ?thesis by simp
  qed
qed

lemma getFragmentNames_requires:
  "getFragmentNames sels doc n = (if requires (definitions doc) sels n then Some 1 else None)"
proof -
  let ?st = "(addNames [] (spreadNames sels), [])"
  have "passInvariant (definitions doc) sels ?st"
    by (auto simp: passInvariant_def set_addNames intro: requires.direct)
  then have mem: "n \<in> set (resolvePasses (definitions doc) ?st) \<longleftrightarrow> requires (definitions doc) sels n"
    by (rule resolvePasses_requires)
  have "map_of (map (\<lambda>n. (n, 1::nat)) xs) n = (if n \<in> set xs then Some 1 else None)" for xs
    by (induction xs) auto
  with mem show ?thesis by (simp add: getFragmentNames_def Let_def)
qed



lemma resolvePasses_stops:
  "\<exists>k. resolvePasses defs st = fst ((scanPass defs ^^ k) st) \<and>
       fst (scanPass defs ((scanPass defs ^^ k) st)) = fst ((scanPass defs ^^ k) st)"
proof (induction defs st rule: resolvePasses.induct)
  case (1 defs st)
  show ?case
  proof (cases "fst (scanPass defs st) = fst st")
    case True
    then have "resolvePasses defs st = fst ((scanPass defs ^^ 0) st)"
      by (simp add: resolvePasses_step [of defs st])
    with True show ?thesis by (intro exI [of _ 0]) simp
  next
    case False
    from "1.IH" [OF refl False] obtain k where
      k: "resolvePasses defs (scanPass defs st) = fst ((scanPass defs ^^ k) (scanPass defs st))"
        "fst (scanPass defs ((scanPass defs ^^ k) (scanPass defs st))) =
         fst ((scanPass defs ^^ k) (scanPass defs st))"
      by blast
    from False have "resolvePasses defs st = resolvePasses defs (scanPass defs st)"
      by (simp add: resolvePasses_step [of defs st])
    with k show ?thesis
      by (intro exI [of _ "Suc k"]) (simp add: funpow_swap1)
  qed
qed

lemma fragmentSelections_find:
  "fragmentSelections defs n =
     (case find (\<lambda>x. isFragmentDefinition x \<and> definition_name x = Some n) defs of
        Some d \<Rightarrow> selectionSet d
      | None \<Rightarrow> [])"
  by (induction defs n rule: fragmentSelections.induct) auto

lemma find_holds: "find P xs = Some x \<Longrightarrow> P x"
  by (induction xs) (auto split: if_splits)

lemma two_sorted_by_name:
  assumes st: "set xs = {a, b}" and ne: "sortName a \<noteq> sortName b"
    and di: "distinct (map sortName xs)" and so: "sorted (map sortName xs)"
  shows "xs = (if sortName a < sortName b then [a, b] else [b, a])"
proof -
  from ne have ab: "a \<noteq> b" by auto
  from di have "distinct xs" by (rule distinct_map [THEN iffD1, THEN conjunct1])
  then have "length xs = card (set xs)" by (simp add: distinct_card)
  with st ab have "length xs = 2" by simp
  then obtain x y where xs: "xs = [x, y]"
    by (cases xs; cases "tl xs") auto
  with st have xy: "{x, y} = {a, b}" by simp
  from so xs have le: "sortName x \<le> sortName y" by simp
  from xy have "(x = a \<and> y = b) \<or> (x = b \<and> y = a)"
    by (auto simp: doubleton_eq_iff)
  then show ?thesis
  proof
    assume "x = a \<and> y = b"
    with le ne xs show ?thesis by auto
  next
    assume "x = b \<and> y = a"
    with le ne xs show ?thesis by auto
  qed
qed

text \<open>
  C3. Let a document hold, as its first fragment definitions of two distinct names, F1
  whose selection set spreads the name of F2 and no other, and F2 whose selection set
  spreads the name of F1 and no other; whatever else the document holds. For a query
  that spreads the name of F1 and no other, the passes of the resolution stop, after some
  number \<open>k\<close> of them, with exactly the two names required, and \<open>getQueryFragments\<close> returns
  the definitions of F1 and F2 and nothing else, each once, the one of the smaller name
  first.
\<close>

theorem getQueryFragments_cycle:
  assumes ne: "f1 \<noteq> f2"
    and F1: "find (\<lambda>x. isFragmentDefinition x \<and> definition_name x = Some f1) (definitions doc)
             = Some F1"
    and F2: "find (\<lambda>x. isFragmentDefinition x \<and> definition_name x = Some f2) (definitions doc)
             = Some F2"
    and s1: "set (spreadNames (selectionSet F1)) = {f2}"
    and s2: "set (spreadNames (selectionSet F2)) = {f1}"
    and sq: "set (spreadNames (selectionSet Q)) = {f1}"
  shows "definitions (getQueryFragments doc Q) = (if f1 < f2 then [F1, F2] else [F2, F1]) \<and>
         set (definitions (getQueryFragments doc Q)) = {F1, F2} \<and>
         distinct (definitions (getQueryFragments doc Q)) \<and>
         getFragmentNames (selectionSet Q) doc = [f1 \<mapsto> 1, f2 \<mapsto> 1] \<and>
         (\<exists>k. resolvePasses (definitions doc) (addNames [] (spreadNames (selectionSet Q)), []) =
                fst ((scanPass (definitions doc) ^^ k)
                       (addNames [] (spreadNames (selectionSet Q)), [])) \<and>
              fst (scanPass (definitions doc)
                     ((scanPass (definitions doc) ^^ k)
                        (addNames [] (spreadNames (selectionSet Q)), []))) =
              fst ((scanPass (definitions doc) ^^ k)
                     (addNames [] (spreadNames (selectionSet Q)), [])))"
proof -
  let ?defs = "definitions doc"
  let ?frs = "definitions (getQueryFragments doc Q)"
  let ?q = "getFragmentNames (selectionSet Q) doc"
  have fs1: "fragmentSelections ?defs f1 = selectionSet F1"
    by (simp add: fragmentSelections_find F1)
  have fs2: "fragmentSelections ?defs f2 = selectionSet F2"
    by (simp add: fragmentSelections_find F2)
  have only: "n = f1 \<or> n = f2" if "requires ?defs (selectionSet Q) n" for n
    using that
  proof (induction rule: requires.induct)
    case (direct n)
    with sq show ?case by simp
  next
    case (through m n)
    from through.IH show ?case
    proof
      assume "m = f1"
      with through.hyps(2) fs1 s1 show ?thesis by simp
    next
      assume "m = f2"
      with through.hyps(2) fs2 s2 show ?thesis by simp
    qed
  qed
  have r1: "requires ?defs (selectionSet Q) f1"
    by (rule requires.direct) (simp add: sq)
  have r2: "requires ?defs (selectionSet Q) f2"
    by (rule requires.through [OF r1]) (simp add: fs1 s1)
  have req: "requires ?defs (selectionSet Q) n \<longleftrightarrow> n = f1 \<or> n = f2" for n
    using only r1 r2 by blast
  have names: "?q = [f1 \<mapsto> 1, f2 \<mapsto> 1]"
    by (rule ext) (simp add: getFragmentNames_requires req)
  have frs: "?frs = arraySort sortFragmentsByName (foldl (reduceQueryDefinitions ?q) [] ?defs)"
    by (simp add: getQueryFragments_def Let_def)
  have q1: "?q n = Some 1 \<longleftrightarrow> n = f1 \<or> n = f2" for n
    by (simp add: getFragmentNames_requires req)
  have carry: "f \<in> set ?frs \<longleftrightarrow>
          (\<exists>n. ?q n = Some 1 \<and>
               find (\<lambda>x. isFragmentDefinition x \<and> definition_name x = Some n) ?defs = Some f)"
    for f
    unfolding frs set_arraySort
    using reduce_members [of "[]" f ?q ?defs] by simp
  have mem: "f \<in> set ?frs \<longleftrightarrow> f = F1 \<or> f = F2" for f
  proof
    assume "f \<in> set ?frs"
    then obtain n where n: "?q n = Some 1"
      and fn: "find (\<lambda>x. isFragmentDefinition x \<and> definition_name x = Some n) ?defs = Some f"
      unfolding carry by blast
    from n have "n = f1 \<or> n = f2" by (simp only: q1)
    then show "f = F1 \<or> f = F2"
    proof
      assume "n = f1"
      with fn F1 show ?thesis by simp
    next
      assume "n = f2"
      with fn F2 show ?thesis by simp
    qed
  next
    assume "f = F1 \<or> f = F2"
    then show "f \<in> set ?frs"
    proof
      assume "f = F1"
      with F1 q1 [of f1] show ?thesis unfolding carry by blast
    next
      assume "f = F2"
      with F2 q1 [of f2] show ?thesis unfolding carry by blast
    qed
  qed
  then have st: "set ?frs = {F1, F2}" by auto
  have n1: "sortName F1 = f1"
    using find_holds [OF F1] fragment_name [of F1] by simp
  have n2: "sortName F2 = f2"
    using find_holds [OF F2] fragment_name [of F2] by simp
  have so: "sorted (map sortName ?frs)"
    unfolding frs by (rule sorted_arraySort)
  have "distinct (map sortName (foldl (reduceQueryDefinitions ?q) [] ?defs))"
    by (rule reduce_distinct) simp_all
  then have di: "distinct (map sortName ?frs)"
    unfolding frs by (simp add: distinct_map_arraySort)
  have lst: "?frs = (if f1 < f2 then [F1, F2] else [F2, F1])"
    using two_sorted_by_name [OF st _ di so] ne by (simp add: n1 n2)
  from di have dfrs: "distinct ?frs" by (rule distinct_map [THEN iffD1, THEN conjunct1])
  from lst st dfrs names
    resolvePasses_stops [of ?defs "(addNames [] (spreadNames (selectionSet Q)), [])"]
  show ?thesis by (intro conjI)
qed

text \<open>
  The cycle between F1 and F2 in a document that also holds a second definition of F1 and
  an unused F3, the spreads lying beside and below plain fields.
\<close>

theorem getQueryFragments_cycle_witness:
  "definitions (getQueryFragments cyclicFragments cyclicQuery) =
     [FragmentDefinition ''F1'' ''T'' [Field ''a'' [], FragmentSpread ''F2''],
      FragmentDefinition ''F2'' ''T'' [Field ''b'' [], FragmentSpread ''F1'']] \<and>
   getFragmentNames (selectionSet cyclicQuery) cyclicFragments = [''F1'' \<mapsto> 1, ''F2'' \<mapsto> 1]"
proof -
  let ?F1 = "FragmentDefinition ''F1'' ''T'' [Field ''a'' [], FragmentSpread ''F2'']"
  let ?F2 = "FragmentDefinition ''F2'' ''T'' [Field ''b'' [], FragmentSpread ''F1'']"
  have ne: "''F1'' \<noteq> ''F2''" by simp
  have lt: "''F1'' < ''F2''" by (simp add: less_char_def)
  have F1: "find (\<lambda>x. isFragmentDefinition x \<and> definition_name x = Some ''F1'')
              (definitions cyclicFragments) = Some ?F1"
    by (simp add: cyclicFragments_def)
  have F2: "find (\<lambda>x. isFragmentDefinition x \<and> definition_name x = Some ''F2'')
              (definitions cyclicFragments) = Some ?F2"
    by (simp add: cyclicFragments_def)
  have s1: "set (spreadNames (selectionSet ?F1)) = {''F2''}"
    by (simp add: spreadNames_def)
  have s2: "set (spreadNames (selectionSet ?F2)) = {''F1''}"
    by (simp add: spreadNames_def)
  have sq: "set (spreadNames (selectionSet cyclicQuery)) = {''F1''}"
    by (simp add: spreadNames_def cyclicQuery_def)
  note t = getQueryFragments_cycle [OF ne F1 F2 s1 s2 sq]
  from t [THEN conjunct1] lt
  have "definitions (getQueryFragments cyclicFragments cyclicQuery) = [?F1, ?F2]"
    by simp
  with t [THEN conjunct2, THEN conjunct2, THEN conjunct2, THEN conjunct1]
  show ?thesis by (intro conjI)
qed

end
